theory Spec2Isabelle
  imports Main "HOL-Library.Multiset"
begin

section \<open>The environment of the program\<close>

text \<open>
  The program talks to the instrument through liblxi (\<open>lxi_connect\<close>, \<open>lxi_send\<close>,
  \<open>lxi_receive\<close>, \<open>lxi_disconnect\<close>), matches with the C library's \<open>regcomp\<close> and
  \<open>regexec\<close>, and prints. None of these is code of the program, so the model takes
  their answers from an environment and records what the program does to them in a
  world: the transport calls in the order they are made, each with the arguments the
  program passed, and the text written to the two output streams.
\<close>

datatype lxi_call =
    Lxi_connect string int       \<comment> \<open>address, timeout (port 0, name NULL and VXI11 are constants)\<close>
  | Lxi_send int string nat int  \<comment> \<open>device, message, length, timeout\<close>
  | Lxi_receive int nat int      \<comment> \<open>device, size of the buffer, timeout\<close>
  | Lxi_disconnect int           \<comment> \<open>device\<close>

record world =
  calls :: "lxi_call list"
  stdout :: string
  stderr :: string
  dumped :: "(string \<times> string) list"

record environment =
  regcomp :: "string \<Rightarrow> (string \<Rightarrow> bool) option"
  connect_result :: "lxi_call list \<Rightarrow> int"
  receive_result :: "lxi_call list \<Rightarrow> string option"
  fopen_error :: "string option"
  resolved_filename :: string

text \<open>
  How a C function ends: it returns a value, it ends the process with \<open>exit\<close>, or it
  does something for which C promises nothing: an access outside an array, at the index
  given, or an \<open>int\<close> counted past \<open>INT_MAX\<close>.
\<close>

datatype 'a outcome = Return 'a | Exit int | Out_of_bounds int | Int_overflow

definition LXI_ERROR :: int where
  "LXI_ERROR = -1"

definition EXIT_FAILURE :: int where
  "EXIT_FAILURE = 1"

definition IMAGE_SIZE_MAX :: nat where
  "IMAGE_SIZE_MAX = 4194304"

definition PLUGIN_LIST_SIZE_MAX :: nat where
  "PLUGIN_LIST_SIZE_MAX = 50"

definition ID_LENGTH_MAX :: nat where
  "ID_LENGTH_MAX = 65536"

definition strlen :: "string \<Rightarrow> nat" where
  "strlen s = length s"

definition printf :: "string \<Rightarrow> world \<Rightarrow> world" where
  "printf s w = w\<lparr>stdout := stdout w @ s\<rparr>"

definition error_printf :: "string \<Rightarrow> world \<Rightarrow> world" where
  "error_printf s w = w\<lparr>stderr := stderr w @ s\<rparr>"

definition lxi_connect :: "environment \<Rightarrow> string \<Rightarrow> int \<Rightarrow> world \<Rightarrow> int \<times> world" where
  "lxi_connect env address timeout w =
     (let cs = calls w @ [Lxi_connect address timeout]
      in (connect_result env cs, w\<lparr>calls := cs\<rparr>))"

definition lxi_send :: "int \<Rightarrow> string \<Rightarrow> nat \<Rightarrow> int \<Rightarrow> world \<Rightarrow> world" where
  "lxi_send device message len timeout w =
     w\<lparr>calls := calls w @ [Lxi_send device message len timeout]\<rparr>"

definition lxi_receive ::
  "environment \<Rightarrow> int \<Rightarrow> nat \<Rightarrow> int \<Rightarrow> world \<Rightarrow> (int \<times> string) \<times> world" where
  "lxi_receive env device len timeout w =
     (let cs = calls w @ [Lxi_receive device len timeout]
      in (case receive_result env cs of
            None \<Rightarrow> (LXI_ERROR, [])
          | Some data \<Rightarrow> (int (length (take len data)), take len data),
          w\<lparr>calls := cs\<rparr>))"

definition lxi_disconnect :: "int \<Rightarrow> world \<Rightarrow> world" where
  "lxi_disconnect device w = w\<lparr>calls := calls w @ [Lxi_disconnect device]\<rparr>"

section \<open>Matching one pattern: \<open>regex_match\<close>\<close>

text \<open>
  \<open>regcomp env pattern\<close> is \<open>None\<close> when the pattern does not compile; a compiled
  pattern is the set of strings in which \<open>regexec\<close> finds it. The string handed to
  \<open>regex_match\<close> is the array \<open>id\<close> of \<open>screenshot\<close>, read as a C string: \<open>Some s\<close>
  when the array holds the terminated string \<open>s\<close>, \<open>None\<close> when it holds no NUL, in
  which case \<open>regexec\<close>, and only \<open>regexec\<close>, reads past its end.
\<close>

definition regexec :: "(string \<Rightarrow> bool) \<Rightarrow> string option \<Rightarrow> bool option" where
  "regexec compiled s = map_option compiled s"

definition regex_match :: "environment \<Rightarrow> string option \<Rightarrow> string \<Rightarrow> bool option" where
  "regex_match env s pattern =
     (case regcomp env pattern of
        None \<Rightarrow> Some False
      | Some compiled \<Rightarrow>
          (case regexec compiled s of
             None \<Rightarrow> None
           | Some status \<Rightarrow> (if \<not> status then Some False else Some True)))"

section \<open>Walking the patterns of one plugin: \<open>strtok\<close> and the inner loop\<close>

definition strtok :: "string \<Rightarrow> (string \<times> string) option" where
  "strtok s =
     (let s' = dropWhile (\<lambda>c. c = CHR '' '') s
      in if s' = [] then None
         else Some (takeWhile (\<lambda>c. c \<noteq> CHR '' '') s',
                    drop 1 (dropWhile (\<lambda>c. c \<noteq> CHR '' '') s')))"

lemma strtok_shorter:
  assumes "strtok s = Some (t, r)"
  shows "length r < length s"
proof -
  define s' where "s' = dropWhile (\<lambda>c. c = CHR '' '') s"
  from assms have ne: "s' \<noteq> []"
    and r: "r = drop 1 (dropWhile (\<lambda>c. c \<noteq> CHR '' '') s')"
    by (simp_all add: strtok_def s'_def Let_def split: if_splits)
  from ne obtain c cs where cs: "s' = c # cs"
    by (cases s') simp_all
  have "\<not> (hd s' = CHR '' '')"
    using ne hd_dropWhile [of "\<lambda>c. c = CHR '' ''" s] by (simp add: s'_def)
  then have "c \<noteq> CHR '' ''"
    by (simp add: cs)
  then have "dropWhile (\<lambda>c. c \<noteq> CHR '' '') s' = dropWhile (\<lambda>c. c \<noteq> CHR '' '') cs"
    by (simp add: cs)
  then have "length r \<le> length cs"
    using length_dropWhile_le [of "\<lambda>c. c \<noteq> CHR '' ''" cs] by (simp add: r)
  moreover have "length s' \<le> length s"
    unfolding s'_def by (rule length_dropWhile_le)
  ultimately show ?thesis
    by (simp add: cs)
qed

text \<open>
  The inner loop of \<open>screenshot\<close>, with the variables it reads and writes: \<open>token\<close>,
  \<open>token_found\<close>, the place \<open>strtok\<close> has saved, and \<open>match_count\<close>. The first call
  of \<open>strtok\<close> is on the copy of the plugin's \<open>regex\<close> when \<open>token\<close> is NULL, and every
  other call goes on from the saved place. \<open>strdup\<close> is taken to succeed.
  \<open>match_count\<close> is a C \<open>int\<close>; it counts tokens of one string, fewer than the string
  has characters, so it is modelled without wrap-around.
\<close>

function token_loop ::
  "environment \<Rightarrow> string option \<Rightarrow> string \<Rightarrow> string option \<Rightarrow> bool \<Rightarrow> string \<Rightarrow> int
     \<Rightarrow> (string option \<times> bool \<times> string \<times> int) option" where
  "token_loop env ident regex_buffer token token_found saved match_count =
     (if token_found then
        (case strtok (if token = None then regex_buffer else saved) of
           None \<Rightarrow> token_loop env ident regex_buffer None False [] match_count
         | Some (tok, rest) \<Rightarrow>
             (case regex_match env ident tok of
                None \<Rightarrow> None
              | Some matched \<Rightarrow>
                  token_loop env ident regex_buffer (Some tok) token_found rest
                    (if matched then match_count + 1 else match_count)))
      else Some (token, token_found, saved, match_count))"
  by pat_completeness auto
termination
proof (relation "measure (\<lambda>(env, ident, regex_buffer, token, token_found, saved, match_count).
          if \<not> token_found then 0
          else if token = None then length regex_buffer + 2 else length saved + 1)",
       goal_cases)
  case 1
  show ?case by simp
next
  case (2 env ident regex_buffer token token_found saved match_count)
  then show ?case by simp
next
  case (3 env ident regex_buffer token token_found saved match_count x2 tok rest matched)
  then have "length rest < length (if token = None then regex_buffer else saved)"
    using strtok_shorter by metis
  with 3 show ?case by (auto split: if_splits)
qed

section \<open>The plugins and their list\<close>

text \<open>
  \<open>struct screenshot_plugin\<close> is declared in \<open>screenshot.h\<close>; its fields are the ones
  the code initialises and reads. A \<open>regex\<close> that is NULL is \<open>None\<close>. The function
  pointer \<open>screenshot\<close> is the field \<open>screenshot_fn\<close> here, called as \<open>screenshot\<close>
  calls it, with the address and the timeout.
\<close>

record screenshot_plugin =
  name :: string
  description :: string
  regex :: "string option"
  screenshot_fn :: "string \<Rightarrow> int \<Rightarrow> world \<Rightarrow> int outcome \<times> world"

text \<open>
  \<open>plugin_list\<close> is an array of \<open>PLUGIN_LIST_SIZE_MAX\<close> pointers, all NULL at the
  start. The model is a function from indices to entries; every loop of the program
  guards the index with \<open>i < PLUGIN_LIST_SIZE_MAX\<close> before it reads the entry.
\<close>

type_synonym plugin_list = "nat \<Rightarrow> screenshot_plugin option"

definition plugin_list_empty :: plugin_list where
  "plugin_list_empty = (\<lambda>i. None)"

function first_free :: "plugin_list \<Rightarrow> nat \<Rightarrow> nat" where
  "first_free pl i =
     (if i < PLUGIN_LIST_SIZE_MAX \<and> pl i \<noteq> None then first_free pl (i + 1) else i)"
  by pat_completeness auto
termination
  by (relation "measure (\<lambda>(pl, i). PLUGIN_LIST_SIZE_MAX - i)") auto

definition screenshot_plugin_register ::
  "plugin_list \<Rightarrow> screenshot_plugin \<Rightarrow> world \<Rightarrow> plugin_list outcome \<times> world" where
  "screenshot_plugin_register pl plugin w =
     (let i = first_free pl 0
      in if i \<ge> PLUGIN_LIST_SIZE_MAX
         then (Exit EXIT_FAILURE, printf ''Error: Screenshot plugin list full\<newline>'' w)
         else (Return (pl(i := Some plugin)), w))"

text \<open>The plugins a scan of the list meets from index \<open>i\<close> on, in the order of the scan.\<close>

function registered_from :: "plugin_list \<Rightarrow> nat \<Rightarrow> screenshot_plugin list" where
  "registered_from pl i =
     (if i < PLUGIN_LIST_SIZE_MAX
      then (case pl i of None \<Rightarrow> [] | Some p \<Rightarrow> p # registered_from pl (i + 1))
      else [])"
  by pat_completeness auto
termination
  by (relation "measure (\<lambda>(pl, i). PLUGIN_LIST_SIZE_MAX - i)") auto

definition registered :: "plugin_list \<Rightarrow> screenshot_plugin list" where
  "registered pl = registered_from pl 0"

section \<open>Listing the plugins: \<open>screenshot_list_plugins\<close>\<close>

text \<open>
  \<open>length\<close> and \<open>length_max\<close> are \<open>int\<close>, \<open>strlen\<close> returns a \<open>size_t\<close>. The
  assignment \<open>length = strlen(...)\<close> keeps the low 32 bits, read as two's complement.
  In the second \<open>for\<close> loop the bound \<open>length_max - strlen(...)\<close> is computed in
  \<open>size_t\<close> (64 bits, as on the LP64 systems the tool is built for), so it wraps around
  when \<open>length_max\<close> is the smaller, and the \<open>int\<close> counter \<open>j\<close> is compared with it as
  an unsigned number. In the first loop both sides are \<open>int\<close>.
\<close>

definition INT_MAX :: nat where
  "INT_MAX = 2147483647"

definition int_of_size_t :: "nat \<Rightarrow> int" where
  "int_of_size_t n = (int n + 2 ^ 31) mod 2 ^ 32 - 2 ^ 31"

definition size_t_sub :: "int \<Rightarrow> nat \<Rightarrow> nat" where
  "size_t_sub a b = nat ((a - int b) mod 2 ^ 64)"

definition putchar :: "char \<Rightarrow> world \<Rightarrow> world" where
  "putchar c w = w\<lparr>stdout := stdout w @ [c]\<rparr>"

function longest_loop :: "plugin_list \<Rightarrow> nat \<Rightarrow> int \<Rightarrow> int" where
  "longest_loop pl i length_max =
     (if i < PLUGIN_LIST_SIZE_MAX
      then (case pl i of
              None \<Rightarrow> length_max
            | Some p \<Rightarrow>
                (let len = int_of_size_t (strlen (name p))
                 in longest_loop pl (i + 1) (if length_max < len then len else length_max)))
      else length_max)"
  by pat_completeness auto
termination
  by (relation "measure (\<lambda>(pl, i, length_max). PLUGIN_LIST_SIZE_MAX - i)") auto

text \<open>
  \<open>for (j=0; j<bound; j++) putchar(' ')\<close>, from the value of \<open>j\<close> on. \<open>j\<close> starts at 0
  and only grows, so it is a natural number here; counting it past \<open>INT_MAX\<close> is the
  overflow of an \<open>int\<close>.
\<close>

function pad_loop :: "nat \<Rightarrow> nat \<Rightarrow> world \<Rightarrow> unit outcome \<times> world" where
  "pad_loop j bound w =
     (if j < bound
      then (if j + 1 > INT_MAX then (Int_overflow, putchar CHR '' '' w)
            else pad_loop (j + 1) bound (putchar CHR '' '' w))
      else (Return (), w))"
  by pat_completeness auto
termination
  by (relation "measure (\<lambda>(j, bound, w). bound - j)") auto

function rows_loop :: "plugin_list \<Rightarrow> nat \<Rightarrow> int \<Rightarrow> world \<Rightarrow> unit outcome \<times> world" where
  "rows_loop pl i length_max w =
     (if i < PLUGIN_LIST_SIZE_MAX
      then (case pl i of
              None \<Rightarrow> (Return (), w)
            | Some p \<Rightarrow>
                (case pad_loop 0 (size_t_sub length_max (strlen (name p))) w of
                   (Return u, w1) \<Rightarrow>
                     rows_loop pl (i + 1) length_max
                       (printf (''   '' @ description p @ ''\<newline>'') (printf (name p) w1))
                 | (Exit c, w1) \<Rightarrow> (Exit c, w1)
                 | (Out_of_bounds k, w1) \<Rightarrow> (Out_of_bounds k, w1)
                 | (Int_overflow, w1) \<Rightarrow> (Int_overflow, w1)))
      else (Return (), w))"
  by pat_completeness auto
termination
  by (relation "measure (\<lambda>(pl, i, length_max, w). PLUGIN_LIST_SIZE_MAX - i)") auto

definition screenshot_list_plugins :: "plugin_list \<Rightarrow> world \<Rightarrow> unit outcome \<times> world" where
  "screenshot_list_plugins pl w =
     (let length_max = longest_loop pl 0 0
      in (case pad_loop 0 (nat (length_max - 4)) w of
            (Return u, w1) \<Rightarrow>
              rows_loop pl 0 length_max (printf ''Name   Description\<newline>'' w1)
          | (Exit c, w1) \<Rightarrow> (Exit c, w1)
          | (Out_of_bounds k, w1) \<Rightarrow> (Out_of_bounds k, w1)
          | (Int_overflow, w1) \<Rightarrow> (Int_overflow, w1)))"

section \<open>Asking the instrument who it is: \<open>get_device_id\<close>\<close>

text \<open>
  \<open>id\<close> is an array of \<open>ID_LENGTH_MAX\<close> characters that \<open>screenshot\<close> leaves
  uninitialised: the model takes what it holds before the call as an argument.
  \<open>lxi_receive\<close> writes the bytes it received to the front of the array. The access
  \<open>id[length-1]\<close> is inside the array when \<open>0 \<le> length - 1 < ID_LENGTH_MAX\<close>.
\<close>

type_synonym buffer = "nat \<Rightarrow> char"

definition store :: "buffer \<Rightarrow> string \<Rightarrow> buffer" where
  "store buf data = (\<lambda>k. if k < length data then data ! k else buf k)"

definition in_id :: "int \<Rightarrow> bool" where
  "in_id k = (0 \<le> k \<and> k < int ID_LENGTH_MAX)"

definition get_device_id ::
  "environment \<Rightarrow> string \<Rightarrow> buffer \<Rightarrow> int \<Rightarrow> world \<Rightarrow> (int \<times> buffer) outcome \<times> world" where
  "get_device_id env address ident timeout w =
     (let (device, w1) = lxi_connect env address timeout w
      in if device = LXI_ERROR
         then (Return (1, ident), printf ''Error: Failed to connect\<newline>'' w1)
         else
           (let command = ''*IDN?'';
                w2 = lxi_send device command (strlen command) timeout w1;
                ((len, data), w3) = lxi_receive env device ID_LENGTH_MAX timeout w2;
                ident1 = store ident data
            in if len < 0
               then (Return (1, ident1), printf ''Error: Failed to receive message\<newline>'' w3)
               else if \<not> in_id (len - 1) then (Out_of_bounds (len - 1), w3)
               else if ident1 (nat (len - 1)) = CHR ''\<newline>''
               then (Return (0, ident1(nat (len - 1) := CHR 0x00)), w3)
               else (Return (0, ident1), w3)))"

text \<open>
  The array read as a C string, from index \<open>k\<close> on: the characters before the first
  NUL, or \<open>None\<close> when there is no NUL up to the end of the array.
\<close>

function c_str_from :: "buffer \<Rightarrow> nat \<Rightarrow> string option" where
  "c_str_from buf k =
     (if k < ID_LENGTH_MAX
      then (if buf k = CHR 0x00 then Some []
            else map_option ((#) (buf k)) (c_str_from buf (k + 1)))
      else None)"
  by pat_completeness auto
termination
  by (relation "measure (\<lambda>(buf, k). ID_LENGTH_MAX - k)") auto

definition c_str :: "buffer \<Rightarrow> string option" where
  "c_str buf = c_str_from buf 0"

section \<open>Choosing the plugin and calling it: \<open>screenshot\<close>\<close>

text \<open>
  The autodetection loop, with all the variables of \<open>screenshot\<close> it uses. A plugin
  without \<open>regex\<close> is skipped by \<open>continue\<close>, which leaves every variable but \<open>i\<close> as
  it is. The result is \<open>plugin_winner\<close> when the loop ends, or \<open>None\<close> when \<open>regexec\<close>
  has read past the end of \<open>id\<close>.
\<close>

function autodetect_loop ::
  "environment \<Rightarrow> plugin_list \<Rightarrow> string option \<Rightarrow> nat \<Rightarrow> string option \<Rightarrow> bool \<Rightarrow> string
     \<Rightarrow> int \<Rightarrow> int \<Rightarrow> int \<Rightarrow> int option" where
  "autodetect_loop env pl ident i token token_found saved plugin_winner match_count
       match_count_max =
     (if i < PLUGIN_LIST_SIZE_MAX
      then (case pl i of
              None \<Rightarrow> Some plugin_winner
            | Some p \<Rightarrow>
                (case regex p of
                   None \<Rightarrow>
                     autodetect_loop env pl ident (i + 1) token token_found saved
                       plugin_winner match_count match_count_max
                 | Some regex_buffer \<Rightarrow>
                     (case token_loop env ident regex_buffer token token_found saved
                             match_count of
                        None \<Rightarrow> None
                      | Some (token1, token_found1, saved1, match_count1) \<Rightarrow>
                          (if match_count1 > match_count_max
                           then autodetect_loop env pl ident (i + 1) token1 True saved1
                                  (int i) 0 match_count1
                           else autodetect_loop env pl ident (i + 1) token1 True saved1
                                  plugin_winner 0 match_count_max))))
      else Some plugin_winner)"
  by pat_completeness auto
termination
  by (relation "measure (\<lambda>(env, pl, ident, i, rest). PLUGIN_LIST_SIZE_MAX - i)") auto

text \<open>
  The loop as \<open>screenshot\<close> enters it: \<open>i = 0\<close>, \<open>token = NULL\<close>,
  \<open>token_found = true\<close>, \<open>plugin_winner = -1\<close> and both counts 0.
\<close>

definition autodetect :: "environment \<Rightarrow> plugin_list \<Rightarrow> string option \<Rightarrow> int option" where
  "autodetect env pl ident = autodetect_loop env pl ident 0 None True [] (- 1) 0 0"

fun strcmp :: "string \<Rightarrow> string \<Rightarrow> int" where
  "strcmp [] [] = 0"
| "strcmp [] (d # ds) = - 1"
| "strcmp (c # cs) [] = 1"
| "strcmp (c # cs) (d # ds) =
     (if c = d then strcmp cs ds
      else if (of_char c :: nat) < of_char d then - 1 else 1)"

function lookup_loop :: "plugin_list \<Rightarrow> string \<Rightarrow> nat \<Rightarrow> bool \<Rightarrow> nat \<times> bool" where
  "lookup_loop pl plugin_name i no_match =
     (if i < PLUGIN_LIST_SIZE_MAX
      then (case pl i of
              None \<Rightarrow> (i, no_match)
            | Some p \<Rightarrow>
                (if strcmp (name p) plugin_name = 0 then (i, False)
                 else lookup_loop pl plugin_name (i + 1) no_match))
      else (i, no_match))"
  by pat_completeness auto
termination
  by (relation "measure (\<lambda>(pl, plugin_name, i, no_match). PLUGIN_LIST_SIZE_MAX - i)") auto

text \<open>
  The last statement of \<open>screenshot\<close>: the call through \<open>plugin_list[i]\<close>. An index
  outside the array or a NULL entry there would be an invalid access.
\<close>

definition call_plugin ::
  "plugin_list \<Rightarrow> int \<Rightarrow> string \<Rightarrow> int \<Rightarrow> world \<Rightarrow> int outcome \<times> world" where
  "call_plugin pl i address timeout w =
     (if 0 \<le> i \<and> i < int PLUGIN_LIST_SIZE_MAX
      then (case pl (nat i) of
              None \<Rightarrow> (Out_of_bounds i, w)
            | Some p \<Rightarrow> screenshot_fn p address timeout w)
      else (Out_of_bounds i, w))"

definition screenshot ::
  "environment \<Rightarrow> plugin_list \<Rightarrow> buffer \<Rightarrow> string \<Rightarrow> string \<Rightarrow> string \<Rightarrow> int \<Rightarrow> world
     \<Rightarrow> int outcome \<times> world" where
  "screenshot env pl id0 address plugin_name filename timeout w =
     (if strlen address = 0
      then (Exit EXIT_FAILURE, printf ''Error: Missing address\<newline>'' w)
      else if strlen plugin_name = 0
      then
        (case get_device_id env address id0 (if timeout \<noteq> 0 then 1 else 0) w of
           (Exit c, w1) \<Rightarrow> (Exit c, w1)
         | (Out_of_bounds k, w1) \<Rightarrow> (Out_of_bounds k, w1)
         | (Int_overflow, w1) \<Rightarrow> (Int_overflow, w1)
         | (Return (rc, ident), w1) \<Rightarrow>
             (if rc \<noteq> 0
              then (Exit EXIT_FAILURE,
                    printf ''Error: Unable to retrieve instrument ID\<newline>'' w1)
              else
                (case autodetect env pl (c_str ident) of
                   None \<Rightarrow> (Out_of_bounds (int ID_LENGTH_MAX), w1)
                 | Some plugin_winner \<Rightarrow>
                     (if plugin_winner = - 1
                      then (Exit EXIT_FAILURE,
                            printf (''Error: Could not autodetect which screenshot plugin ''
                                    @ ''to use - please specify plugin name manually\<newline>'') w1)
                      else
                        (case (if 0 \<le> plugin_winner
                                   \<and> plugin_winner < int PLUGIN_LIST_SIZE_MAX
                               then pl (nat plugin_winner) else None) of
                           None \<Rightarrow> (Out_of_bounds plugin_winner, w1)
                         | Some p \<Rightarrow>
                             call_plugin pl plugin_winner address timeout
                               (printf (''Loaded '' @ name p @ '' screenshot plugin\<newline>'')
                                  w1))))))
      else
        (let (i, no_match) = lookup_loop pl plugin_name 0 True
         in if no_match
            then (Exit EXIT_FAILURE, printf ''Error: Unknown plugin name\<newline>'' w)
            else call_plugin pl (int i) address timeout w))"

section \<open>A plugin: \<open>siglent_sdm3000\<close>\<close>

text \<open>
  \<open>screenshot_file_dump\<close> takes the name of the file from the options and the clock,
  which the model does not follow: the environment gives the resolved name and says
  whether \<open>fopen\<close> fails, and with which message. The world keeps what was written,
  with its format. \<open>malloc\<close> is taken to succeed.
\<close>

definition screenshot_file_dump ::
  "environment \<Rightarrow> string \<Rightarrow> int \<Rightarrow> string \<Rightarrow> world \<Rightarrow> unit outcome \<times> world" where
  "screenshot_file_dump env data len format w =
     (case fopen_error env of
        Some msg \<Rightarrow>
          (Exit EXIT_FAILURE,
           printf (''Error: Could not write screenshot file ('' @ msg @ '')\<newline>'') w)
      | None \<Rightarrow>
          (Return (),
           printf (''Saved screenshot image to '' @ resolved_filename env @ ''\<newline>'')
             (w\<lparr>dumped := dumped w @ [(take (nat len) data, format)]\<rparr>)))"

text \<open>
  The screenshot function of the plugin, with its three parameters; it does not use
  the identity (\<open>UNUSED(id)\<close>). The two early returns leave the device connected, as
  in the source. The plugin's entry for the list (\<open>struct screenshot_plugin
  siglent_sdm3000\<close>) is not part of the model: \<open>screenshot\<close> calls the function of
  an entry with two arguments, the address and the timeout, which does not fit this
  function, and \<open>screenshot_register_plugins\<close> does not register this plugin.
\<close>

definition siglent_sdm3000_screenshot ::
  "environment \<Rightarrow> string \<Rightarrow> string \<Rightarrow> int \<Rightarrow> world \<Rightarrow> int outcome \<times> world" where
  "siglent_sdm3000_screenshot env address ident timeout w =
     (let (device, w1) = lxi_connect env address timeout w
      in if device = LXI_ERROR
         then (Return 1, error_printf ''Failed to connect\<newline>'' w1)
         else
           (let command = ''scdp'';
                w2 = lxi_send device command (strlen command) timeout w1;
                ((len, response), w3) = lxi_receive env device IMAGE_SIZE_MAX timeout w2
            in if len < 0
               then (Return 1, error_printf ''Failed to receive message\<newline>'' w3)
               else
                 (case screenshot_file_dump env response len ''bmp'' w3 of
                    (Return u, w4) \<Rightarrow> (Return 0, lxi_disconnect device w4)
                  | (Exit c, w4) \<Rightarrow> (Exit c, w4)
                  | (Out_of_bounds k, w4) \<Rightarrow> (Out_of_bounds k, w4)
                  | (Int_overflow, w4) \<Rightarrow> (Int_overflow, w4))))"

section \<open>Notions used to state the properties\<close>

text \<open>The tokens \<open>strtok\<close> returns when it is called on a string until it returns NULL.\<close>

function tokens :: "string \<Rightarrow> string list" where
  "tokens s = (case strtok s of None \<Rightarrow> [] | Some (t, r) \<Rightarrow> t # tokens r)"
  by pat_completeness auto
termination
  by (relation "measure length") (auto dest: strtok_shorter)

text \<open>\<open>regex_match\<close> on a string that is there.\<close>

definition matches :: "environment \<Rightarrow> string \<Rightarrow> string \<Rightarrow> bool" where
  "matches env ident pattern =
     (case regcomp env pattern of None \<Rightarrow> False | Some compiled \<Rightarrow> compiled ident)"

definition match_total :: "environment \<Rightarrow> string \<Rightarrow> string list \<Rightarrow> int" where
  "match_total env ident ts = int (length (filter (matches env ident) ts))"

text \<open>
  The fragments of a string between separators: the maximal runs of characters that are
  not separators. \<open>space_fragments\<close> separates at the space character only;
  \<open>whitespace_fragments\<close> follows the specification's word and separates at every
  character for which C's \<open>isspace\<close> holds.
\<close>

fun fields :: "(char \<Rightarrow> bool) \<Rightarrow> string \<Rightarrow> string \<Rightarrow> string list" where
  "fields sep cur [] = (if cur = [] then [] else [cur])"
| "fields sep cur (c # cs) =
     (if sep c then (if cur = [] then fields sep [] cs else cur # fields sep [] cs)
      else fields sep (cur @ [c]) cs)"

definition space_fragments :: "string \<Rightarrow> string list" where
  "space_fragments s = fields (\<lambda>c. c = CHR '' '') [] s"

definition isspace :: "char \<Rightarrow> bool" where
  "isspace c = (c \<in> {CHR '' '', CHR 0x09, CHR 0x0A, CHR 0x0B, CHR 0x0C, CHR 0x0D})"

definition whitespace_fragments :: "string \<Rightarrow> string list" where
  "whitespace_fragments s = fields isspace [] s"

text \<open>
  The score of a plugin is the value of \<open>match_count\<close> that the loop compares with
  \<open>match_count_max\<close>; a plugin the loop skips has changed neither, which is what a
  score of 0 does. \<open>best_upto sc n w m\<close> says that \<open>w\<close> and \<open>m\<close> are the winner and
  the best score among the first \<open>n\<close> entries: the first entry with the greatest score
  if that is positive, and \<open>-1\<close> if there is none.
\<close>

definition plugin_score :: "environment \<Rightarrow> string \<Rightarrow> screenshot_plugin \<Rightarrow> int" where
  "plugin_score env ident p =
     (case regex p of None \<Rightarrow> 0 | Some r \<Rightarrow> match_total env ident (tokens r))"

definition score_at :: "environment \<Rightarrow> plugin_list \<Rightarrow> string \<Rightarrow> nat \<Rightarrow> int" where
  "score_at env pl ident j = (case pl j of None \<Rightarrow> 0 | Some p \<Rightarrow> plugin_score env ident p)"

definition best_upto :: "(nat \<Rightarrow> int) \<Rightarrow> nat \<Rightarrow> int \<Rightarrow> int \<Rightarrow> bool" where
  "best_upto sc n w m =
     (if w = - 1 then m = 0 \<and> (\<forall>j<n. sc j = 0)
      else 0 \<le> w \<and> nat w < n \<and> sc (nat w) = m \<and> 0 < m
           \<and> (\<forall>j<n. sc j \<le> m) \<and> (\<forall>j<nat w. sc j < m))"

text \<open>What the listing is expected to print.\<close>

definition longest_name :: "screenshot_plugin list \<Rightarrow> nat" where
  "longest_name ps = foldr (\<lambda>p m. max (length (name p)) m) ps 0"

definition listing_row :: "nat \<Rightarrow> screenshot_plugin \<Rightarrow> string" where
  "listing_row width p =
     replicate (width - length (name p)) CHR '' '' @ name p @ ''   '' @ description p
       @ ''\<newline>''"

text \<open>
  The transport calls of one identity query, and the removal of the newline as a
  function of the array and the length received.
\<close>

definition id_query_calls :: "string \<Rightarrow> int \<Rightarrow> int \<Rightarrow> lxi_call list" where
  "id_query_calls address device timeout =
     [Lxi_connect address timeout, Lxi_send device ''*IDN?'' 5 timeout,
      Lxi_receive device ID_LENGTH_MAX timeout]"

definition strip_newline :: "buffer \<Rightarrow> nat \<Rightarrow> buffer" where
  "strip_newline buf n = (if buf (n - 1) = CHR ''\<newline>'' then buf(n - 1 := CHR 0x00) else buf)"

text \<open>
  A list is packed when every entry from the first empty one on is empty, as in every
  list built by \<open>screenshot_plugin_register\<close> from the empty one. The timeout of a
  transport call is the one it was given; \<open>lxi_disconnect\<close> takes none.
\<close>

definition packed :: "plugin_list \<Rightarrow> bool" where
  "packed pl = (\<forall>j. length (registered pl) \<le> j \<longrightarrow> pl j = None)"

fun call_timeout :: "lxi_call \<Rightarrow> int option" where
  "call_timeout (Lxi_connect address timeout) = Some timeout"
| "call_timeout (Lxi_send device message len timeout) = Some timeout"
| "call_timeout (Lxi_receive device len timeout) = Some timeout"
| "call_timeout (Lxi_disconnect device) = None"

section \<open>A bench for concrete runs\<close>

text \<open>
  An executable \<open>regcomp\<close> for the patterns made of ordinary characters and dots: such
  a pattern is found where its characters occur in a row, a dot standing for any
  character. Patterns with an operator character are outside this fragment and stand
  for the patterns \<open>regcomp\<close> rejects, such as a lone \<open>(\<close>. The instrument of the
  bench connects as device 3, answers the identity query with a given reply and a
  screenshot request with two bytes. The plugins of the bench have a function of the
  two arguments \<open>screenshot\<close> calls it with, which returns 0 and does nothing else.
\<close>

definition ere_operator :: "char \<Rightarrow> bool" where
  "ere_operator c = (c \<in> set ''()[]{}*+?|^$'' \<or> c = CHR 0x5C)"

fun match_here :: "string \<Rightarrow> string \<Rightarrow> bool" where
  "match_here [] s = True"
| "match_here (p # ps) [] = False"
| "match_here (p # ps) (c # cs) = ((p = CHR ''.'' \<or> p = c) \<and> match_here ps cs)"

fun search :: "string \<Rightarrow> string \<Rightarrow> bool" where
  "search p [] = match_here p []"
| "search p (c # cs) = (match_here p (c # cs) \<or> search p cs)"

definition simple_regcomp :: "string \<Rightarrow> (string \<Rightarrow> bool) option" where
  "simple_regcomp pattern =
     (if list_ex ere_operator pattern then None else Some (search pattern))"

definition no_handler :: "string \<Rightarrow> int \<Rightarrow> world \<Rightarrow> int outcome \<times> world" where
  "no_handler address timeout w = (Return 0, w)"

definition instrument :: "string \<Rightarrow> environment" where
  "instrument reply =
     \<lparr>regcomp = simple_regcomp, connect_result = (\<lambda>cs. 3),
      receive_result = (\<lambda>cs. case last cs of
          Lxi_receive device len timeout \<Rightarrow>
            (if len = ID_LENGTH_MAX then Some reply else Some ''BM'')
        | _ \<Rightarrow> None),
      fopen_error = None,
      resolved_filename = ''shot.bmp''\<rparr>"

definition world_empty :: world where
  "world_empty = \<lparr>calls = [], stdout = [], stderr = [], dumped = []\<rparr>"

definition test_list :: plugin_list where
  "test_list = plugin_list_empty
     (0 := Some \<lparr>name = ''a'', description = ''first'', regex = Some ''FOO'', screenshot_fn = no_handler\<rparr>,
      1 := Some \<lparr>name = ''b'', description = ''second'', regex = Some ''FOO BAR'', screenshot_fn = no_handler\<rparr>,
      2 := Some \<lparr>name = ''c'', description = ''third'', regex = Some ''BAR  FOO'', screenshot_fn = no_handler\<rparr>,
      3 := Some \<lparr>name = ''longname'', description = ''fourth'', regex = None, screenshot_fn = no_handler\<rparr>)"

text \<open>A list in which two plugins have a fragment that does not compile.\<close>

definition malformed_list :: plugin_list where
  "malformed_list = plugin_list_empty
     (0 := Some \<lparr>name = ''x'', description = ''first'', regex = Some ''( QUX'', screenshot_fn = no_handler\<rparr>,
      1 := Some \<lparr>name = ''y'', description = ''second'', regex = Some ''FOO ( BAR'', screenshot_fn = no_handler\<rparr>,
      2 := Some \<lparr>name = ''z'', description = ''third'', regex = Some ''BAR FOO'', screenshot_fn = no_handler\<rparr>)"

text \<open>An environment without instrument, for runs that only match.\<close>

definition offline :: environment where
  "offline = \<lparr>regcomp = simple_regcomp, connect_result = (\<lambda>cs. LXI_ERROR),
     receive_result = (\<lambda>cs. None), fopen_error = None, resolved_filename = []\<rparr>"

section \<open>Lemmas about the loops\<close>

declare token_loop.simps [simp del] tokens.simps [simp del]
  first_free.simps [simp del] registered_from.simps [simp del]
  autodetect_loop.simps [simp del] lookup_loop.simps [simp del]
  longest_loop.simps [simp del] pad_loop.simps [simp del] rows_loop.simps [simp del]
  c_str_from.simps [simp del]

subsection \<open>The walk through the patterns\<close>

lemma regex_match_Some: "regex_match env (Some ident) pattern = Some (matches env ident pattern)"
  by (simp add: regex_match_def regexec_def matches_def split: option.splits)

lemma token_loop_done:
  "token_loop env ident buf token False saved mc = Some (token, False, saved, mc)"
  by (simp add: token_loop.simps)

lemma token_loop_unfold:
  "token_loop env ident buf token True saved mc =
     (case strtok (if token = None then buf else saved) of
        None \<Rightarrow> Some (None, False, [], mc)
      | Some (tok, rest) \<Rightarrow>
          (case regex_match env ident tok of
             None \<Rightarrow> None
           | Some matched \<Rightarrow>
               token_loop env ident buf (Some tok) True rest
                 (if matched then mc + 1 else mc)))"
  by (subst token_loop.simps) (simp add: token_loop_done split: option.split)

lemma token_loop_next:
  "token_loop env (Some ident) buf (Some t) True saved mc
     = Some (None, False, [], mc + match_total env ident (tokens saved))"
proof (induction saved arbitrary: t mc rule: tokens.induct)
  case (1 s t mc)
  show ?case
  proof (cases "strtok s")
    case None
    then show ?thesis
      by (simp add: token_loop_unfold tokens.simps [of s] match_total_def)
  next
    case (Some x)
    obtain tok rest where x: "x = (tok, rest)" by (cases x)
    have ih: "token_loop env (Some ident) buf (Some tok) True rest mc'
        = Some (None, False, [], mc' + match_total env ident (tokens rest))" for mc'
      by (rule 1 [OF Some x [symmetric]])
    have "token_loop env (Some ident) buf (Some t) True s mc
        = token_loop env (Some ident) buf (Some tok) True rest
            (if matches env ident tok then mc + 1 else mc)"
      using Some x by (subst token_loop_unfold) (simp add: regex_match_Some)
    then show ?thesis
      using Some x by (simp add: ih tokens.simps [of s] match_total_def)
  qed
qed

lemma token_loop_first:
  "token_loop env (Some ident) buf None True saved mc
     = Some (None, False, [], mc + match_total env ident (tokens buf))"
proof (cases "strtok buf")
  case None
  then show ?thesis
    by (simp add: token_loop_unfold tokens.simps [of buf] match_total_def)
next
  case (Some x)
  obtain tok rest where x: "x = (tok, rest)" by (cases x)
  have "token_loop env (Some ident) buf None True saved mc
      = token_loop env (Some ident) buf (Some tok) True rest
          (if matches env ident tok then mc + 1 else mc)"
    using Some x by (subst token_loop_unfold) (simp add: regex_match_Some)
  then show ?thesis
    using Some x by (simp add: token_loop_next tokens.simps [of buf] match_total_def)
qed

lemma fields_skip: "fields sep [] s = fields sep [] (dropWhile sep s)"
  by (induction s) simp_all

lemma fields_run:
  "cur \<noteq> [] \<or> (s \<noteq> [] \<and> \<not> sep (hd s)) \<Longrightarrow>
   fields sep cur s
     = (cur @ takeWhile (\<lambda>c. \<not> sep c) s) # fields sep [] (drop 1 (dropWhile (\<lambda>c. \<not> sep c) s))"
proof (induction s arbitrary: cur)
  case Nil
  then show ?case by simp
next
  case (Cons c cs)
  show ?case
  proof (cases "sep c")
    case True
    with Cons.prems show ?thesis by simp
  next
    case False
    then show ?thesis using Cons.IH [of "cur @ [c]"] by simp
  qed
qed

lemma tokens_fragments: "tokens s = space_fragments s"
proof (induction s rule: tokens.induct)
  case (1 s)
  let ?s' = "dropWhile (\<lambda>c. c = CHR '' '') s"
  show ?case
  proof (cases "?s' = []")
    case True
    then have "strtok s = None" by (simp add: strtok_def)
    moreover have "space_fragments s = []"
      unfolding space_fragments_def using fields_skip [of "\<lambda>c. c = CHR '' ''" s] True by simp
    ultimately show ?thesis by (simp add: tokens.simps [of s])
  next
    case False
    define t where "t = takeWhile (\<lambda>c. c \<noteq> CHR '' '') ?s'"
    define r where "r = drop 1 (dropWhile (\<lambda>c. c \<noteq> CHR '' '') ?s')"
    have st: "strtok s = Some (t, r)"
      using False by (simp add: strtok_def t_def r_def Let_def)
    have hd: "\<not> (hd ?s' = CHR '' '')"
      using False hd_dropWhile [of "\<lambda>c. c = CHR '' ''" s] by simp
    have "space_fragments s = fields (\<lambda>c. c = CHR '' '') [] ?s'"
      unfolding space_fragments_def by (rule fields_skip)
    also have "\<dots> = ([] @ t) # fields (\<lambda>c. c = CHR '' '') [] r"
      unfolding t_def r_def using False hd
      by (intro fields_run) simp
    finally have "space_fragments s = t # space_fragments r"
      by (simp add: space_fragments_def)
    moreover have "tokens r = space_fragments r"
      by (rule 1 [OF st refl])
    ultimately show ?thesis
      using st by (simp add: tokens.simps [of s])
  qed
qed

subsection \<open>The list of plugins and the autodetection loop\<close>

lemma registered_from_stop:
  "\<not> i < PLUGIN_LIST_SIZE_MAX \<or> pl i = None \<Longrightarrow> registered_from pl i = []"
  by (subst registered_from.simps) auto

lemma registered_from_step:
  "i < PLUGIN_LIST_SIZE_MAX \<Longrightarrow> pl i = Some p \<Longrightarrow>
   registered_from pl i = p # registered_from pl (i + 1)"
  by (subst registered_from.simps) simp

lemma registered_from_nth:
  "k < length (registered_from pl i) \<Longrightarrow>
   i + k < PLUGIN_LIST_SIZE_MAX \<and> pl (i + k) = Some (registered_from pl i ! k)"
proof (induction pl i arbitrary: k rule: registered_from.induct)
  case (1 pl i k)
  from "1.prems" have lt: "i < PLUGIN_LIST_SIZE_MAX"
    using registered_from_stop [of i pl] by fastforce
  from "1.prems" obtain p where p: "pl i = Some p"
    using registered_from_stop [of i pl] by fastforce
  note step = registered_from_step [where pl = pl and i = i, OF lt p]
  show ?case
  proof (cases k)
    case 0
    then show ?thesis using lt p step by simp
  next
    case (Suc k')
    with "1.prems" step have "k' < length (registered_from pl (i + 1))" by simp
    from "1.IH" [OF lt p this] show ?thesis using Suc step by simp
  qed
qed

lemma registered_nth:
  "j < length (registered pl) \<Longrightarrow> pl j = Some (registered pl ! j)"
  using registered_from_nth [of j pl 0] by (simp add: registered_def)

lemma registered_from_end:
  "i + length (registered_from pl i) < PLUGIN_LIST_SIZE_MAX \<Longrightarrow>
   pl (i + length (registered_from pl i)) = None"
proof (induction pl i rule: registered_from.induct)
  case (1 pl i)
  show ?case
  proof (cases "i < PLUGIN_LIST_SIZE_MAX \<and> pl i \<noteq> None")
    case False
    then have "registered_from pl i = []" by (intro registered_from_stop) auto
    with False "1.prems" show ?thesis by auto
  next
    case True
    then obtain p where lt: "i < PLUGIN_LIST_SIZE_MAX" and p: "pl i = Some p" by auto
    note step = registered_from_step [where pl = pl and i = i, OF lt p]
    from "1.IH" [OF lt p] "1.prems" show ?thesis by (simp add: step)
  qed
qed

lemma registered_from_bound:
  "i \<le> PLUGIN_LIST_SIZE_MAX \<Longrightarrow> i + length (registered_from pl i) \<le> PLUGIN_LIST_SIZE_MAX"
proof (induction pl i rule: registered_from.induct)
  case (1 pl i)
  show ?case
  proof (cases "i < PLUGIN_LIST_SIZE_MAX \<and> pl i \<noteq> None")
    case False
    then have "registered_from pl i = []" by (intro registered_from_stop) auto
    with "1.prems" show ?thesis by simp
  next
    case True
    then obtain p where lt: "i < PLUGIN_LIST_SIZE_MAX" and p: "pl i = Some p" by auto
    note step = registered_from_step [where pl = pl and i = i, OF lt p]
    from "1.IH" [OF lt p] lt show ?thesis by (simp add: step)
  qed
qed

lemma match_total_nonneg: "0 \<le> match_total env ident ts"
  by (simp add: match_total_def)

lemma plugin_score_nonneg: "0 \<le> plugin_score env ident p"
  by (simp add: plugin_score_def match_total_nonneg split: option.split)

lemma score_at_nonneg: "0 \<le> score_at env pl ident j"
  by (simp add: score_at_def plugin_score_nonneg split: option.split)

lemma best_upto_keep:
  assumes "best_upto sc i w m" and "sc i \<le> m" and "0 \<le> sc i"
  shows "best_upto sc (Suc i) w m"
  using assms unfolding best_upto_def
  by (auto simp: less_Suc_eq)

lemma best_upto_take:
  assumes "best_upto sc i w m" and "m < sc i"
  shows "best_upto sc (Suc i) (int i) (sc i)"
proof -
  have m: "0 \<le> m" and le: "\<forall>j<i. sc j \<le> m"
    using assms(1) unfolding best_upto_def by (auto split: if_splits)
  then have "\<forall>j<i. sc j < sc i" using assms(2) by fastforce
  moreover have "\<forall>j<Suc i. sc j \<le> sc i"
    using le assms(2) by (auto simp: less_Suc_eq)
  ultimately show ?thesis
    using m assms(2) unfolding best_upto_def by simp
qed

lemma autodetect_loop_stop:
  "\<not> i < PLUGIN_LIST_SIZE_MAX \<or> pl i = None \<Longrightarrow>
   autodetect_loop env pl ident i token token_found saved w mc m = Some w"
  by (subst autodetect_loop.simps) auto

lemma autodetect_loop_skip:
  "i < PLUGIN_LIST_SIZE_MAX \<Longrightarrow> pl i = Some p \<Longrightarrow> regex p = None \<Longrightarrow>
   autodetect_loop env pl ident i token token_found saved w mc m
     = autodetect_loop env pl ident (i + 1) token token_found saved w mc m"
  by (subst autodetect_loop.simps) simp

lemma autodetect_loop_score:
  "i < PLUGIN_LIST_SIZE_MAX \<Longrightarrow> pl i = Some p \<Longrightarrow> regex p = Some r \<Longrightarrow>
   autodetect_loop env pl (Some ident) i None True saved w 0 m
     = (if m < match_total env ident (tokens r)
        then autodetect_loop env pl (Some ident) (i + 1) None True [] (int i) 0
               (match_total env ident (tokens r))
        else autodetect_loop env pl (Some ident) (i + 1) None True [] w 0 m)"
  by (subst autodetect_loop.simps) (simp add: token_loop_first)

lemma autodetect_loop_best:
  assumes "PLUGIN_LIST_SIZE_MAX - i = n"
    and "best_upto (score_at env pl ident) i w m"
  shows "\<exists>w' m'. autodetect_loop env pl (Some ident) i None True saved w 0 m = Some w'
           \<and> best_upto (score_at env pl ident) (i + length (registered_from pl i)) w' m'"
  using assms
proof (induction n arbitrary: i saved w m)
  case 0
  then have "\<not> i < PLUGIN_LIST_SIZE_MAX" by simp
  then show ?case
    using 0 by (auto simp: autodetect_loop_stop registered_from_stop)
next
  case (Suc n)
  then have lt: "i < PLUGIN_LIST_SIZE_MAX" by simp
  show ?case
  proof (cases "pl i")
    case None
    then show ?thesis
      using Suc.prems by (auto simp: autodetect_loop_stop registered_from_stop)
  next
    case (Some p)
    have n: "PLUGIN_LIST_SIZE_MAX - (i + 1) = n" using Suc.prems by simp
    have len: "i + length (registered_from pl i) = (i + 1) + length (registered_from pl (i + 1))"
      by (simp add: registered_from_step [where pl = pl and i = i, OF lt Some])
    show ?thesis
    proof (cases "regex p")
      case None
      then have "score_at env pl ident i = 0"
        using Some by (simp add: score_at_def plugin_score_def)
      then have "best_upto (score_at env pl ident) (i + 1) w m"
        using best_upto_keep [OF Suc.prems(2)] Suc.prems(2)
        by (auto simp: best_upto_def split: if_splits)
      from Suc.IH [OF n this, of saved] show ?thesis
        unfolding len autodetect_loop_skip [where pl = pl and i = i, OF lt Some None] .
    next
      case r: (Some r)
      have sc: "score_at env pl ident i = match_total env ident (tokens r)"
        using Some r by (simp add: score_at_def plugin_score_def)
      show ?thesis
      proof (cases "m < match_total env ident (tokens r)")
        case True
        then have "best_upto (score_at env pl ident) (i + 1) (int i)
            (match_total env ident (tokens r))"
          using best_upto_take [OF Suc.prems(2)] sc by simp
        from Suc.IH [OF n this, of "[]"] show ?thesis
          unfolding len autodetect_loop_score [where pl = pl and i = i, OF lt Some r] using True by simp
      next
        case False
        then have "best_upto (score_at env pl ident) (i + 1) w m"
          using best_upto_keep [OF Suc.prems(2)] sc score_at_nonneg [of env pl ident i]
          by simp
        from Suc.IH [OF n this, of "[]"] show ?thesis
          unfolding len autodetect_loop_score [where pl = pl and i = i, OF lt Some r] using False by simp
      qed
    qed
  qed
qed

lemma autodetect_best:
  "\<exists>w m. autodetect env pl (Some ident) = Some w
     \<and> best_upto (score_at env pl ident) (length (registered pl)) w m"
proof -
  have "best_upto (score_at env pl ident) 0 (- 1) 0"
    by (simp add: best_upto_def)
  from autodetect_loop_best [OF refl this, of "[]"] show ?thesis
    by (simp add: autodetect_def registered_def)
qed

lemma score_at_registered:
  "j < length (registered pl) \<Longrightarrow>
   score_at env pl ident j = plugin_score env ident (registered pl ! j)"
  by (simp add: score_at_def registered_nth)

text \<open>Registering puts the plugin behind the ones registered before.\<close>

lemma first_free_registered: "first_free pl i = i + length (registered_from pl i)"
proof (induction pl i rule: first_free.induct)
  case (1 pl i)
  show ?case
  proof (cases "i < PLUGIN_LIST_SIZE_MAX \<and> pl i \<noteq> None")
    case False
    then have "registered_from pl i = []" by (intro registered_from_stop) auto
    moreover have "first_free pl i = i"
      using False by (subst first_free.simps) auto
    ultimately show ?thesis by simp
  next
    case True
    then obtain p where lt: "i < PLUGIN_LIST_SIZE_MAX" and p: "pl i = Some p" by auto
    have "first_free pl i = first_free pl (i + 1)"
      using True by (subst first_free.simps) simp
    then show ?thesis
      using "1.IH" True registered_from_step [where pl = pl and i = i, OF lt p] by simp
  qed
qed

lemma registered_from_append:
  assumes "n < PLUGIN_LIST_SIZE_MAX" and "pl n = None"
    and "n + 1 < PLUGIN_LIST_SIZE_MAX \<longrightarrow> pl (n + 1) = None"
    and "\<forall>j<n. pl j \<noteq> None"
  shows "n - i = k \<Longrightarrow> i \<le> n \<Longrightarrow>
         registered_from (pl(n := Some p)) i = registered_from pl i @ [p]"
proof (induction k arbitrary: i)
  case 0
  then have i: "i = n" by simp
  have "registered_from (pl(n := Some p)) (n + 1) = []"
    using assms(3) by (intro registered_from_stop) auto
  then have "registered_from (pl(n := Some p)) n = [p]"
    using registered_from_step [where pl = "pl(n := Some p)" and i = n and p = p] assms(1)
    by simp
  moreover have "registered_from pl n = []"
    using assms(2) by (intro registered_from_stop) simp
  ultimately show ?case by (simp only: i append_Nil)
next
  case (Suc k)
  then have lt: "i < n" by simp
  then obtain q where q: "pl i = Some q"
    using assms(4) by auto
  have i: "i < PLUGIN_LIST_SIZE_MAX"
    using lt assms(1) by simp
  have "registered_from (pl(n := Some p)) i = q # registered_from (pl(n := Some p)) (i + 1)"
    using registered_from_step [where pl = "pl(n := Some p)" and i = i and p = q] i q lt
    by simp
  moreover have "registered_from pl i = q # registered_from pl (i + 1)"
    by (rule registered_from_step [where pl = pl and i = i, OF i q])
  moreover have "registered_from (pl(n := Some p)) (i + 1) = registered_from pl (i + 1) @ [p]"
    using Suc lt by (intro Suc.IH) simp_all
  ultimately show ?case by (simp only: append_Cons)
qed

lemma packed_empty: "packed plugin_list_empty"
  by (simp add: packed_def plugin_list_empty_def)

lemma register_appends:
  assumes "packed pl" and "screenshot_plugin_register pl p w = (Return pl', w')"
  shows "registered pl' = registered pl @ [p] \<and> packed pl' \<and> w' = w"
proof -
  let ?n = "length (registered pl)"
  have ff: "first_free pl 0 = ?n"
    by (simp add: first_free_registered registered_def)
  from assms(2) have n: "?n < PLUGIN_LIST_SIZE_MAX" and pl': "pl' = pl(?n := Some p)"
    and w: "w' = w"
    by (auto simp: screenshot_plugin_register_def ff Let_def split: if_splits)
  have none: "pl ?n = None" "pl (?n + 1) = None"
    using assms(1) by (simp_all add: packed_def)
  have some: "\<forall>j<?n. pl j \<noteq> None"
    using registered_nth [of _ pl] by simp
  have r: "registered pl' = registered pl @ [p]"
    unfolding pl' registered_def
    using registered_from_append [OF n none(1) _ some, of 0 ?n p] none(2)
    by (simp add: registered_def)
  have "packed pl'"
    using assms(1) unfolding packed_def r by (simp add: pl')
  with r w show ?thesis by simp
qed

lemma register_full:
  "length (registered pl) = PLUGIN_LIST_SIZE_MAX \<Longrightarrow>
   fst (screenshot_plugin_register pl p w) = Exit EXIT_FAILURE"
  by (simp add: screenshot_plugin_register_def first_free_registered registered_def)

subsection \<open>The listing\<close>

lemma int_of_size_t_small: "n < 2 ^ 31 \<Longrightarrow> int_of_size_t n = int n"
  by (simp add: int_of_size_t_def)

lemma size_t_sub_small:
  "int b \<le> a \<Longrightarrow> a \<le> int INT_MAX \<Longrightarrow> size_t_sub a b = nat a - b"
  by (simp add: size_t_sub_def INT_MAX_def)

lemma pad_loop_spaces:
  "bound \<le> INT_MAX \<Longrightarrow> bound - j = n \<Longrightarrow>
   pad_loop j bound w = (Return (), w\<lparr>stdout := stdout w @ replicate n CHR '' ''\<rparr>)"
proof (induction n arbitrary: j w)
  case 0
  then show ?case by (subst pad_loop.simps) simp
next
  case (Suc n)
  then have lt: "j < bound" and ov: "\<not> j + 1 > INT_MAX" and n: "bound - (j + 1) = n"
    by simp_all
  have "pad_loop j bound w = pad_loop (j + 1) bound (putchar CHR '' '' w)"
    using lt ov by (subst pad_loop.simps) simp
  also have "\<dots> = (Return (), putchar CHR '' '' w
      \<lparr>stdout := stdout (putchar CHR '' '' w) @ replicate n CHR '' ''\<rparr>)"
    by (rule Suc.IH [OF Suc.prems(1) n])
  finally show ?case
    by (simp add: putchar_def)
qed

lemma longest_name_Cons:
  "longest_name (p # ps) = max (length (name p)) (longest_name ps)"
  by (simp add: longest_name_def)

lemma longest_name_ge: "p \<in> set ps \<Longrightarrow> length (name p) \<le> longest_name ps"
  by (induction ps) (auto simp: longest_name_Cons longest_name_def)

lemma longest_name_less:
  "0 < N \<Longrightarrow> \<forall>p\<in>set ps. length (name p) < N \<Longrightarrow> longest_name ps < N"
  by (induction ps) (auto simp: longest_name_Cons longest_name_def)

lemma longest_loop_max:
  "\<forall>p\<in>set (registered_from pl i). length (name p) < 2 ^ 31 \<Longrightarrow> 0 \<le> length_max \<Longrightarrow>
   longest_loop pl i length_max = max length_max (int (longest_name (registered_from pl i)))"
proof (induction pl i arbitrary: length_max rule: registered_from.induct)
  case (1 pl i length_max)
  show ?case
  proof (cases "i < PLUGIN_LIST_SIZE_MAX \<and> pl i \<noteq> None")
    case False
    then have "registered_from pl i = []" by (intro registered_from_stop) auto
    moreover have "longest_loop pl i length_max = length_max"
      using False by (subst longest_loop.simps) auto
    ultimately show ?thesis using "1.prems"(2) by (simp add: longest_name_def)
  next
    case True
    then obtain p where lt: "i < PLUGIN_LIST_SIZE_MAX" and p: "pl i = Some p" by auto
    note step = registered_from_step [where pl = pl and i = i, OF lt p]
    have len: "int_of_size_t (strlen (name p)) = int (length (name p))"
      using "1.prems"(1) step by (simp add: int_of_size_t_small strlen_def)
    have rest: "\<forall>q\<in>set (registered_from pl (i + 1)). length (name q) < 2 ^ 31"
      using "1.prems"(1) step by simp
    have "longest_loop pl i length_max
        = longest_loop pl (i + 1)
            (if length_max < int (length (name p)) then int (length (name p)) else length_max)"
      using lt p len by (subst longest_loop.simps) simp
    also have "\<dots> = max (if length_max < int (length (name p)) then int (length (name p))
                           else length_max)
                       (int (longest_name (registered_from pl (i + 1))))"
      using "1.prems"(2) by (intro "1.IH" [OF lt p rest]) simp
    finally show ?thesis
      by (auto simp: step longest_name_Cons max_def)
  qed
qed

lemma rows_loop_lines:
  assumes "length_max \<le> int INT_MAX"
    and "\<forall>p\<in>set (registered_from pl i). int (length (name p)) \<le> length_max"
  shows "rows_loop pl i length_max w
     = (Return (), w\<lparr>stdout := stdout w
          @ concat (map (listing_row (nat length_max)) (registered_from pl i))\<rparr>)"
  using assms(2)
proof (induction pl i arbitrary: w rule: registered_from.induct)
  case (1 pl i w)
  show ?case
  proof (cases "i < PLUGIN_LIST_SIZE_MAX \<and> pl i \<noteq> None")
    case False
    then have "registered_from pl i = []" by (intro registered_from_stop) auto
    moreover have "rows_loop pl i length_max w = (Return (), w)"
      using False by (subst rows_loop.simps) auto
    ultimately show ?thesis by simp
  next
    case True
    then obtain p where lt: "i < PLUGIN_LIST_SIZE_MAX" and p: "pl i = Some p" by auto
    note step = registered_from_step [where pl = pl and i = i, OF lt p]
    have le: "int (length (name p)) \<le> length_max"
      using "1.prems" step by simp
    have rest: "\<forall>q\<in>set (registered_from pl (i + 1)). int (length (name q)) \<le> length_max"
      using "1.prems" step by simp
    have bound: "size_t_sub length_max (strlen (name p)) = nat length_max - length (name p)"
      using le assms(1) by (simp add: size_t_sub_small strlen_def)
    have small: "nat length_max - length (name p) \<le> INT_MAX"
      using assms(1) by simp
    define w1 where "w1 = w\<lparr>stdout := stdout w
        @ replicate (nat length_max - length (name p)) CHR '' ''\<rparr>"
    have pad: "pad_loop 0 (size_t_sub length_max (strlen (name p))) w = (Return (), w1)"
      unfolding bound w1_def using pad_loop_spaces [OF small, of 0] by simp
    have "rows_loop pl i length_max w
        = rows_loop pl (i + 1) length_max
            (printf (''   '' @ description p @ ''\<newline>'') (printf (name p) w1))"
      using lt p pad by (subst rows_loop.simps) simp
    also have "\<dots> = (Return (),
        (printf (''   '' @ description p @ ''\<newline>'') (printf (name p) w1))
          \<lparr>stdout := stdout (printf (''   '' @ description p @ ''\<newline>'') (printf (name p) w1))
             @ concat (map (listing_row (nat length_max)) (registered_from pl (i + 1)))\<rparr>)"
      by (rule "1.IH" [OF lt p rest])
    finally show ?thesis
      by (simp add: step printf_def w1_def listing_row_def [of _ p])
  qed
qed

subsection \<open>The lookup by name\<close>

lemma strcmp_eq: "strcmp a b = 0 \<longleftrightarrow> a = b"
  by (induction a b rule: strcmp.induct) auto

lemma lookup_loop_find:
  "lookup_loop pl plugin_name i True
     = (case find (\<lambda>p. name p = plugin_name) (registered_from pl i) of
          None \<Rightarrow> (i + length (registered_from pl i), True)
        | Some p \<Rightarrow>
            (i + length (takeWhile (\<lambda>p. name p \<noteq> plugin_name) (registered_from pl i)), False))"
proof (induction pl i rule: registered_from.induct)
  case (1 pl i)
  show ?case
  proof (cases "i < PLUGIN_LIST_SIZE_MAX \<and> pl i \<noteq> None")
    case False
    then have "registered_from pl i = []" by (intro registered_from_stop) auto
    moreover have "lookup_loop pl plugin_name i True = (i, True)"
      using False by (subst lookup_loop.simps) auto
    ultimately show ?thesis by simp
  next
    case True
    then obtain p where lt: "i < PLUGIN_LIST_SIZE_MAX" and p: "pl i = Some p" by auto
    note step = registered_from_step [where pl = pl and i = i, OF lt p]
    show ?thesis
    proof (cases "name p = plugin_name")
      case True
      then have "lookup_loop pl plugin_name i True = (i, False)"
        using lt p by (subst lookup_loop.simps) (simp add: strcmp_eq)
      then show ?thesis using True by (simp add: step)
    next
      case False
      then have "lookup_loop pl plugin_name i True = lookup_loop pl plugin_name (i + 1) True"
        using lt p by (subst lookup_loop.simps) (simp add: strcmp_eq)
      then show ?thesis
        using False "1.IH" [OF lt p] by (simp add: step split: option.splits)
    qed
  qed
qed

subsection \<open>The identity query\<close>

lemma get_device_id_received:
  assumes "connect_result env (calls w @ [Lxi_connect address timeout]) = device"
    and "device \<noteq> LXI_ERROR"
    and "receive_result env (calls w @ id_query_calls address device timeout) = Some data"
  shows "get_device_id env address ident timeout w
     = (if take ID_LENGTH_MAX data = [] then Out_of_bounds (- 1)
        else Return (0, strip_newline (store ident (take ID_LENGTH_MAX data))
                          (length (take ID_LENGTH_MAX data))),
        w\<lparr>calls := calls w @ id_query_calls address device timeout\<rparr>)"
proof -
  define d where "d = take ID_LENGTH_MAX data"
  define w1 where "w1 = w\<lparr>calls := calls w @ [Lxi_connect address timeout]\<rparr>"
  define w2 where "w2 = w\<lparr>calls := calls w
      @ [Lxi_connect address timeout, Lxi_send device ''*IDN?'' 5 timeout]\<rparr>"
  define w3 where "w3 = w\<lparr>calls := calls w @ id_query_calls address device timeout\<rparr>"
  have c: "lxi_connect env address timeout w = (device, w1)"
    using assms(1) by (simp add: lxi_connect_def w1_def Let_def)
  have s: "lxi_send device ''*IDN?'' (strlen ''*IDN?'') timeout w1 = w2"
    by (simp add: lxi_send_def strlen_def w1_def w2_def)
  have r: "lxi_receive env device ID_LENGTH_MAX timeout w2 = ((int (length d), d), w3)"
    using assms(3)
    by (simp add: lxi_receive_def w2_def w3_def id_query_calls_def d_def Let_def)
  have len: "length d \<le> ID_LENGTH_MAX" by (simp add: d_def)
  have idx: "in_id (int (length d) - 1) \<longleftrightarrow> d \<noteq> []"
    using len by (cases d) (auto simp: in_id_def)
  have nat: "nat (int (length d) - 1) = length d - 1" by simp
  have "get_device_id env address ident timeout w
      = (if \<not> in_id (int (length d) - 1) then (Out_of_bounds (int (length d) - 1), w3)
         else if store ident d (nat (int (length d) - 1)) = CHR ''\<newline>''
         then (Return (0, (store ident d)(nat (int (length d) - 1) := CHR 0x00)), w3)
         else (Return (0, store ident d), w3))"
    unfolding get_device_id_def c
    by (simp add: assms(2) s r del: of_nat_diff)
  also have "\<dots> = (if d = [] then Out_of_bounds (- 1)
         else Return (0, strip_newline (store ident d) (length d)), w3)"
    unfolding idx nat by (simp add: strip_newline_def)
  finally show ?thesis
    by (simp add: d_def w3_def)
qed

lemma c_str_from_prefix:
  assumes "length s < ID_LENGTH_MAX"
    and "\<forall>j<length s. buf j = s ! j \<and> buf j \<noteq> CHR 0x00"
    and "buf (length s) = CHR 0x00"
  shows "k \<le> length s \<Longrightarrow> length s - k = n \<Longrightarrow> c_str_from buf k = Some (drop k s)"
proof (induction n arbitrary: k)
  case 0
  then have "k = length s" by simp
  then show ?case using assms by (subst c_str_from.simps) simp
next
  case (Suc n)
  then have lt: "k < length s" by simp
  have nz: "buf k \<noteq> CHR 0x00" and bk: "buf k = s ! k"
    using assms(2) lt by blast+
  have "c_str_from buf k = map_option ((#) (buf k)) (c_str_from buf (k + 1))"
    using lt assms(1) nz by (subst c_str_from.simps) simp
  also have "c_str_from buf (k + 1) = Some (drop (k + 1) s)"
    using Suc lt by (intro Suc.IH) simp_all
  finally show ?case
    using lt bk by (simp add: Cons_nth_drop_Suc)
qed

lemma c_str_stripped:
  assumes "length s < ID_LENGTH_MAX" and "CHR 0x00 \<notin> set s"
  shows "c_str (strip_newline (store buf (s @ [CHR ''\<newline>''])) (length (s @ [CHR ''\<newline>''])))
     = Some s"
proof -
  let ?b = "strip_newline (store buf (s @ [CHR ''\<newline>''])) (length (s @ [CHR ''\<newline>'']))"
  have b: "?b = (store buf (s @ [CHR ''\<newline>'']))(length s := CHR 0x00)"
    by (simp add: strip_newline_def store_def)
  have "s ! j \<noteq> CHR 0x00" if "j < length s" for j
    using that assms(2) nth_mem by metis
  then have f1: "\<forall>j<length s. ?b j = s ! j \<and> ?b j \<noteq> CHR 0x00"
    unfolding b by (simp add: store_def nth_append)
  have f2: "?b (length s) = CHR 0x00"
    unfolding b by simp
  have "c_str_from ?b 0 = Some (drop 0 s)"
    using c_str_from_prefix [OF assms(1) f1 f2, of 0 "length s"] by simp
  then show ?thesis by (simp add: c_str_def)
qed

lemma get_device_id_strips_newline:
  assumes "connect_result env (calls w @ [Lxi_connect address timeout]) = device"
    and "device \<noteq> LXI_ERROR"
    and "receive_result env (calls w @ id_query_calls address device timeout)
           = Some (s @ [CHR ''\<newline>''])"
    and "length s < ID_LENGTH_MAX" and "CHR 0x00 \<notin> set s"
  shows "\<exists>buf. get_device_id env address ident timeout w
           = (Return (0, buf), w\<lparr>calls := calls w @ id_query_calls address device timeout\<rparr>)
         \<and> c_str buf = Some s"
proof -
  have "take ID_LENGTH_MAX (s @ [CHR ''\<newline>'']) = s @ [CHR ''\<newline>'']"
    using assms(4) by simp
  then show ?thesis
    using get_device_id_received [OF assms(1-3), of ident] c_str_stripped [OF assms(4,5), of ident]
    by simp
qed

lemma instrument_query:
  assumes "length s < ID_LENGTH_MAX" and "CHR 0x00 \<notin> set s"
  shows "\<exists>buf. get_device_id (instrument (s @ [CHR ''\<newline>''])) address ident timeout world_empty
           = (Return (0, buf), world_empty\<lparr>calls := id_query_calls address 3 timeout\<rparr>)
         \<and> c_str buf = Some s"
proof -
  have "\<exists>buf. get_device_id (instrument (s @ [CHR ''\<newline>''])) address ident timeout world_empty
           = (Return (0, buf),
              world_empty\<lparr>calls := calls world_empty @ id_query_calls address 3 timeout\<rparr>)
         \<and> c_str buf = Some s"
    by (rule get_device_id_strips_newline [OF _ _ _ assms])
      (simp_all add: instrument_def LXI_ERROR_def id_query_calls_def)
  then show ?thesis by (simp add: world_empty_def)
qed

lemma find_takeWhile:
  "find P xs = Some x \<Longrightarrow>
   length (takeWhile (\<lambda>y. \<not> P y) xs) < length xs \<and> xs ! length (takeWhile (\<lambda>y. \<not> P y) xs) = x"
  by (induction xs) (auto split: if_splits)


text \<open>
  What the autodetection returns, for every list and identity: the first of the
  registered plugins with the greatest score when some score is positive, and \<open>-1\<close>
  otherwise.
\<close>

lemma autodetect_characterised:
  "\<exists>w. autodetect env pl (Some ident) = Some w
     \<and> (if \<exists>j<length (registered pl). 0 < plugin_score env ident (registered pl ! j)
         then 0 \<le> w \<and> nat w < length (registered pl)
              \<and> 0 < plugin_score env ident (registered pl ! nat w)
              \<and> (\<forall>j<length (registered pl).
                    plugin_score env ident (registered pl ! j)
                      \<le> plugin_score env ident (registered pl ! nat w))
              \<and> (\<forall>j<nat w.
                    plugin_score env ident (registered pl ! j)
                      < plugin_score env ident (registered pl ! nat w))
         else w = - 1)"
proof -
  let ?n = "length (registered pl)"
  let ?sc = "score_at env pl ident"
  let ?ps = "\<lambda>j. plugin_score env ident (registered pl ! j)"
  obtain w m where w: "autodetect env pl (Some ident) = Some w" and best: "best_upto ?sc ?n w m"
    using autodetect_best by blast
  have sc: "?sc j = ?ps j" if "j < ?n" for j
    using that by (rule score_at_registered)
  show ?thesis
  proof (cases "w = - 1")
    case True
    with best have "\<forall>j<?n. ?sc j = 0"
      unfolding best_upto_def by simp
    then have "\<not> (\<exists>j<?n. 0 < ?ps j)"
      using sc by fastforce
    with w True show ?thesis by simp
  next
    case False
    with best have n: "0 \<le> w" "nat w < ?n" and m: "?sc (nat w) = m" "0 < m"
      and le: "\<forall>j<?n. ?sc j \<le> m" and less: "\<forall>j<nat w. ?sc j < m"
      unfolding best_upto_def by simp_all
    have pw: "?ps (nat w) = m"
      using m(1) sc [OF n(2)] by simp
    have "\<forall>j<?n. ?ps j \<le> ?ps (nat w)"
      using le sc pw by fastforce
    moreover have "\<forall>j<nat w. ?ps j < ?ps (nat w)"
    proof (intro allI impI)
      fix j assume j: "j < nat w"
      then have "j < ?n" using n(2) by simp
      then show "?ps j < ?ps (nat w)"
        using less j pw sc [of j] by fastforce
    qed
    moreover have "\<exists>j<?n. 0 < ?ps j"
      using n(2) pw m(2) by auto
    ultimately show ?thesis
      using w n pw m(2) by simp
  qed
qed

lemma autodetect_selects:
  assumes "j < length (registered pl)"
    and "0 < plugin_score env ident (registered pl ! j)"
    and "\<forall>l<length (registered pl).
           plugin_score env ident (registered pl ! l) \<le> plugin_score env ident (registered pl ! j)"
    and "\<forall>l<j. plugin_score env ident (registered pl ! l)
           < plugin_score env ident (registered pl ! j)"
  shows "autodetect env pl (Some ident) = Some (int j)"
proof -
  let ?n = "length (registered pl)"
  let ?ps = "\<lambda>j. plugin_score env ident (registered pl ! j)"
  have ex: "\<exists>j<?n. 0 < ?ps j"
    using assms(1,2) by auto
  obtain w where w: "autodetect env pl (Some ident) = Some w"
    and n: "0 \<le> w" "nat w < ?n"
    and le: "\<forall>l<?n. ?ps l \<le> ?ps (nat w)" and less: "\<forall>l<nat w. ?ps l < ?ps (nat w)"
    using autodetect_characterised [of env pl ident] ex by auto
  have "\<not> nat w < j"
  proof
    assume "nat w < j"
    then have "?ps (nat w) < ?ps j" using assms(4) by simp
    moreover have "?ps j \<le> ?ps (nat w)" using le assms(1) by simp
    ultimately show False by simp
  qed
  moreover have "\<not> j < nat w"
  proof
    assume "j < nat w"
    then have "?ps j < ?ps (nat w)" using less by simp
    moreover have "?ps (nat w) \<le> ?ps j" using assms(3) n(2) by simp
    ultimately show False by simp
  qed
  ultimately have "nat w = j" by simp
  then have "w = int j" using n(1) by simp
  with w show ?thesis by simp
qed

section \<open>Autodetection picks the first plugin with the greatest score\<close>

text \<open>
  C1. The autodetection loop goes through the list from index 0 upwards, which is the
  order of registration (\<open>register_appends\<close>), and replaces the winner only when
  \<open>match_count\<close> is greater than \<open>match_count_max\<close> (\<open>autodetect_loop_score\<close>). So,
  for every list and identity, it ends with a result; when some registered plugin has
  a positive score the result is a registered plugin with a positive score, such that
  no registered plugin has a greater score and every plugin registered before it has a
  strictly smaller one, and otherwise the result is \<open>-1\<close>. Said from the plugin's side:
  a registered plugin with a positive score that no plugin exceeds and no earlier
  plugin reaches is the one selected. Of several plugins with the same greatest score
  the one registered first is selected, and a plugin with score 0 never is.
\<close>

theorem autodetect_first_strict_maximum:
  "(\<exists>w. autodetect env pl (Some ident) = Some w
     \<and> (if \<exists>j<length (registered pl). 0 < plugin_score env ident (registered pl ! j)
         then 0 \<le> w \<and> nat w < length (registered pl)
              \<and> 0 < plugin_score env ident (registered pl ! nat w)
              \<and> (\<forall>j<length (registered pl).
                    plugin_score env ident (registered pl ! j)
                      \<le> plugin_score env ident (registered pl ! nat w))
              \<and> (\<forall>j<nat w.
                    plugin_score env ident (registered pl ! j)
                      < plugin_score env ident (registered pl ! nat w))
         else w = - 1))
   \<and> (j < length (registered pl)
        \<and> 0 < plugin_score env ident (registered pl ! j)
        \<and> (\<forall>l<length (registered pl).
              plugin_score env ident (registered pl ! l)
                \<le> plugin_score env ident (registered pl ! j))
        \<and> (\<forall>l<j. plugin_score env ident (registered pl ! l)
              < plugin_score env ident (registered pl ! j))
        \<longrightarrow> autodetect env pl (Some ident) = Some (int j))"
  using autodetect_characterised [of env pl ident] autodetect_selects [of j pl env ident]
  by blast

theorem autodetect_first_strict_maximum_witness:
  "map (plugin_score offline ''FOO BAR BAZ'') (registered test_list) = [1, 2, 2, 0]
   \<and> autodetect offline test_list (Some ''FOO BAR BAZ'') = Some 1"
proof -
  let ?ps = "\<lambda>j. plugin_score offline ''FOO BAR BAZ'' (registered test_list ! j)"
  have s: "map (plugin_score offline ''FOO BAR BAZ'') (registered test_list) = [1, 2, 2, 0]"
    by code_simp
  have n: "length (registered test_list) = 4"
    by code_simp
  have v: "?ps 0 = 1" "?ps 1 = 2" "?ps 2 = 2" "?ps 3 = 0"
    by code_simp+
  have c: "l = 0 \<or> l = 1 \<or> l = 2 \<or> l = 3" if "l < 4" for l :: nat
    using that by arith
  have h1: "1 < length (registered test_list)" and h2: "0 < ?ps 1"
    using n v by simp_all
  have h3: "\<forall>l<length (registered test_list). ?ps l \<le> ?ps 1"
    unfolding n using c v by fastforce
  have h4: "\<forall>l<1. ?ps l < ?ps 1"
    using v by simp
  from autodetect_first_strict_maximum [of offline test_list "''FOO BAR BAZ''" 1] h1 h2 h3 h4
  have "autodetect offline test_list (Some ''FOO BAR BAZ'') = Some (int 1)"
    by blast
  with s show ?thesis by simp
qed

section \<open>The score of a plugin\<close>

lemma match_total_mset:
  "mset ts = mset ts' \<Longrightarrow> match_total env ident ts = match_total env ident ts'"
proof -
  assume "mset ts = mset ts'"
  then have "mset (filter (matches env ident) ts) = mset (filter (matches env ident) ts')"
    by (simp add: mset_filter)
  then have "length (filter (matches env ident) ts) = length (filter (matches env ident) ts')"
    by (rule mset_eq_length)
  then show ?thesis by (simp add: match_total_def)
qed


lemma fields_cong:
  "\<forall>c\<in>set s. sep c = sep' c \<Longrightarrow> fields sep cur s = fields sep' cur s"
  by (induction s arbitrary: cur) simp_all

lemma whitespace_fragments_spaces_only:
  "\<forall>c\<in>set s. isspace c \<longrightarrow> c = CHR '' '' \<Longrightarrow>
   whitespace_fragments s = space_fragments s"
  unfolding whitespace_fragments_def space_fragments_def
  by (rule fields_cong) (auto simp: isspace_def)

text \<open>
  C2, as stated: for a plugin with a \<open>regex\<close>, the count is the number of
  whitespace-separated fragments of it that match. The walk separates at the space
  character only (\<open>strtok(..., " ")\<close>): a \<open>regex\<close> holding a tab between \<open>FOO\<close> and
  \<open>BAR\<close> is one token for the code and two fragments for the statement, and against
  the identity \<open>FOO\<close> the code counts 0 where the statement counts 1.
\<close>

theorem score_whitespace_counterexample:
  "token_loop offline (Some ''FOO'') (''FOO'' @ [CHR 0x09] @ ''BAR'') None True [] 0
     \<noteq> Some (None, False, [],
          match_total offline ''FOO'' (whitespace_fragments (''FOO'' @ [CHR 0x09] @ ''BAR'')))"
  by code_simp


text \<open>
  C2, amended: for every plugin with a \<open>regex\<close> and every identity string, the count
  is the number of space-separated fragments of the \<open>regex\<close> that \<open>regex_match\<close>
  finds in the identity, each tried on its own; it is the score of the plugin, and it
  is the same for any other \<open>regex\<close> with the same fragments in another order.
  (\<open>whitespace_fragments_spaces_only\<close>: both readings agree on a \<open>regex\<close> whose only
  whitespace is the space character.)
\<close>

theorem score_counts_space_fragments:
  "token_loop env (Some ident) regex_buffer None True saved 0
     = Some (None, False, [], match_total env ident (space_fragments regex_buffer))
   \<and> (regex p = Some regex_buffer \<longrightarrow>
        plugin_score env ident p = match_total env ident (space_fragments regex_buffer))
   \<and> (mset (space_fragments regex_buffer') = mset (space_fragments regex_buffer) \<longrightarrow>
        token_loop env (Some ident) regex_buffer' None True saved 0
          = token_loop env (Some ident) regex_buffer None True saved 0)"
proof (intro conjI impI)
  show "token_loop env (Some ident) regex_buffer None True saved 0
     = Some (None, False, [], match_total env ident (space_fragments regex_buffer))"
    by (simp add: token_loop_first tokens_fragments)
next
  assume "regex p = Some regex_buffer"
  then show "plugin_score env ident p = match_total env ident (space_fragments regex_buffer)"
    by (simp add: plugin_score_def tokens_fragments)
next
  assume "mset (space_fragments regex_buffer') = mset (space_fragments regex_buffer)"
  then have "match_total env ident (space_fragments regex_buffer')
      = match_total env ident (space_fragments regex_buffer)"
    by (rule match_total_mset)
  then show "token_loop env (Some ident) regex_buffer' None True saved 0
      = token_loop env (Some ident) regex_buffer None True saved 0"
    by (simp add: token_loop_first tokens_fragments)
qed

theorem score_counts_space_fragments_witness:
  "space_fragments ''BAR  FOO QUX'' = [''BAR'', ''FOO'', ''QUX'']
   \<and> mset (space_fragments ''BAR  FOO QUX'') = mset (space_fragments ''QUX FOO BAR '')
   \<and> token_loop offline (Some ''FOO BAR BAZ'') ''BAR  FOO QUX'' None True [] 0
       = Some (None, False, [], 2)
   \<and> token_loop offline (Some ''FOO BAR BAZ'') ''BAR  FOO QUX'' None True [] 0
       = token_loop offline (Some ''FOO BAR BAZ'') ''QUX FOO BAR '' None True [] 0"
proof -
  have f: "space_fragments ''BAR  FOO QUX'' = [''BAR'', ''FOO'', ''QUX'']"
    by code_simp
  have g: "space_fragments ''QUX FOO BAR '' = [''QUX'', ''FOO'', ''BAR'']"
    by code_simp
  have m: "mset (space_fragments ''BAR  FOO QUX'') = mset (space_fragments ''QUX FOO BAR '')"
    unfolding f g by (simp add: add.commute)
  have t: "match_total offline ''FOO BAR BAZ'' [''BAR'', ''FOO'', ''QUX''] = 2"
    by code_simp
  from score_counts_space_fragments
    [of offline "''FOO BAR BAZ''" "''QUX FOO BAR ''" "[]" undefined "''BAR  FOO QUX''"]
    score_counts_space_fragments
    [of offline "''FOO BAR BAZ''" "''BAR  FOO QUX''" "[]" undefined "''QUX FOO BAR ''"]
    f m t
  show ?thesis by simp
qed

section \<open>Patterns that do not compile, plugins without pattern\<close>

text \<open>
  C4. A fragment that \<open>regcomp\<close> rejects makes \<open>regex_match\<close> answer "no match",
  whatever the string: there is no error. In the walk through a \<open>regex\<close> such a
  fragment adds nothing and the fragments before and after it are counted as usual.
  And when a registered plugin has such a fragment, its score is the count of its
  other fragments and the selection goes on over all the registered plugins as it
  does without one: the result is the first plugin with the greatest score when some
  score is positive, this plugin and the ones after it included, and \<open>-1\<close> otherwise.
\<close>

theorem malformed_fragment_counts_nothing:
  "(regcomp env pattern = None \<longrightarrow> regex_match env s pattern = Some False)
   \<and> (space_fragments regex_buffer = before @ pattern # after \<and> regcomp env pattern = None \<longrightarrow>
        token_loop env (Some ident) regex_buffer None True saved 0
          = Some (None, False, [],
              match_total env ident before + match_total env ident after))
   \<and> (k < length (registered pl) \<and> regex (registered pl ! k) = Some regex_buffer
        \<and> space_fragments regex_buffer = before @ pattern # after
        \<and> regcomp env pattern = None
        \<longrightarrow> plugin_score env ident (registered pl ! k)
              = match_total env ident before + match_total env ident after
            \<and> (\<exists>w. autodetect env pl (Some ident) = Some w
                 \<and> (if \<exists>j<length (registered pl).
                          0 < plugin_score env ident (registered pl ! j)
                     then 0 \<le> w \<and> nat w < length (registered pl)
                          \<and> 0 < plugin_score env ident (registered pl ! nat w)
                          \<and> (\<forall>j<length (registered pl).
                                plugin_score env ident (registered pl ! j)
                                  \<le> plugin_score env ident (registered pl ! nat w))
                          \<and> (\<forall>j<nat w.
                                plugin_score env ident (registered pl ! j)
                                  < plugin_score env ident (registered pl ! nat w))
                     else w = - 1))
            \<and> (j < length (registered pl)
                 \<and> 0 < plugin_score env ident (registered pl ! j)
                 \<and> (\<forall>l<length (registered pl).
                       plugin_score env ident (registered pl ! l)
                         \<le> plugin_score env ident (registered pl ! j))
                 \<and> (\<forall>l<j. plugin_score env ident (registered pl ! l)
                       < plugin_score env ident (registered pl ! j))
                 \<longrightarrow> autodetect env pl (Some ident) = Some (int j)))"
proof (intro conjI impI)
  show "regex_match env s pattern = Some False" if "regcomp env pattern = None"
    using that by (simp add: regex_match_def)
next
  assume a: "space_fragments regex_buffer = before @ pattern # after \<and> regcomp env pattern = None"
  then have "matches env ident pattern = False"
    by (simp add: matches_def)
  then have "match_total env ident (before @ pattern # after)
      = match_total env ident before + match_total env ident after"
    by (simp add: match_total_def)
  with a show "token_loop env (Some ident) regex_buffer None True saved 0
      = Some (None, False, [], match_total env ident before + match_total env ident after)"
    by (simp add: token_loop_first tokens_fragments)
next
  assume a: "k < length (registered pl) \<and> regex (registered pl ! k) = Some regex_buffer
      \<and> space_fragments regex_buffer = before @ pattern # after \<and> regcomp env pattern = None"
  then have "matches env ident pattern = False"
    by (simp add: matches_def)
  then have "match_total env ident (before @ pattern # after)
      = match_total env ident before + match_total env ident after"
    by (simp add: match_total_def)
  with a show "plugin_score env ident (registered pl ! k)
      = match_total env ident before + match_total env ident after"
    by (simp add: plugin_score_def tokens_fragments)
next
  show "\<exists>w. autodetect env pl (Some ident) = Some w
      \<and> (if \<exists>j<length (registered pl). 0 < plugin_score env ident (registered pl ! j)
          then 0 \<le> w \<and> nat w < length (registered pl)
               \<and> 0 < plugin_score env ident (registered pl ! nat w)
               \<and> (\<forall>j<length (registered pl).
                     plugin_score env ident (registered pl ! j)
                       \<le> plugin_score env ident (registered pl ! nat w))
               \<and> (\<forall>j<nat w.
                     plugin_score env ident (registered pl ! j)
                       < plugin_score env ident (registered pl ! nat w))
          else w = - 1)"
    by (rule autodetect_characterised)
next
  assume "j < length (registered pl)
      \<and> 0 < plugin_score env ident (registered pl ! j)
      \<and> (\<forall>l<length (registered pl).
            plugin_score env ident (registered pl ! l)
              \<le> plugin_score env ident (registered pl ! j))
      \<and> (\<forall>l<j. plugin_score env ident (registered pl ! l)
            < plugin_score env ident (registered pl ! j))"
  then show "autodetect env pl (Some ident) = Some (int j)"
    using autodetect_selects [of j pl env ident] by blast
qed

theorem malformed_fragment_counts_nothing_witness:
  "regcomp offline ''('' = None
   \<and> regex_match offline (Some ''FOO BAR BAZ'') ''('' = Some False
   \<and> map regex (registered malformed_list) = [Some ''( QUX'', Some ''FOO ( BAR'', Some ''BAR FOO'']
   \<and> space_fragments ''FOO ( BAR'' = [''FOO''] @ ''('' # [''BAR'']
   \<and> token_loop offline (Some ''FOO BAR BAZ'') ''FOO ( BAR'' None True [] 0
       = Some (None, False, [], 2)
   \<and> map (plugin_score offline ''FOO BAR BAZ'') (registered malformed_list) = [0, 2, 2]
   \<and> autodetect offline malformed_list (Some ''FOO BAR BAZ'') = Some 1"
proof -
  let ?ps = "\<lambda>j. plugin_score offline ''FOO BAR BAZ'' (registered malformed_list ! j)"
  have c: "regcomp offline ''('' = None"
    by code_simp
  have f: "space_fragments ''FOO ( BAR'' = [''FOO''] @ ''('' # [''BAR'']"
    by code_simp
  have t: "match_total offline ''FOO BAR BAZ'' [''FOO''] = 1"
    "match_total offline ''FOO BAR BAZ'' [''BAR''] = 1"
    by code_simp+
  have r: "map regex (registered malformed_list)
      = [Some ''( QUX'', Some ''FOO ( BAR'', Some ''BAR FOO'']"
    by code_simp
  have n: "length (registered malformed_list) = 3"
    by code_simp
  have k: "regex (registered malformed_list ! 1) = Some ''FOO ( BAR''"
    by code_simp
  have s: "map (plugin_score offline ''FOO BAR BAZ'') (registered malformed_list) = [0, 2, 2]"
    by code_simp
  have v: "?ps 0 = 0" "?ps 1 = 2" "?ps 2 = 2"
    by code_simp+
  have l3: "l = 0 \<or> l = 1 \<or> l = 2" if "l < 3" for l :: nat
    using that by arith
  have h1: "1 < length (registered malformed_list)" and h2: "0 < ?ps 1"
    using n v by simp_all
  have h3: "\<forall>l<length (registered malformed_list). ?ps l \<le> ?ps 1"
    unfolding n using l3 v by fastforce
  have h4: "\<forall>l<1. ?ps l < ?ps 1"
    using v by simp
  note inst = malformed_fragment_counts_nothing
    [of offline "''(''" "Some ''FOO BAR BAZ''" "''FOO ( BAR''" "[''FOO'']" "[''BAR'']"
      "''FOO BAR BAZ''" "[]" 1 malformed_list 1]
  from inst c have m: "regex_match offline (Some ''FOO BAR BAZ'') ''('' = Some False"
    by blast
  from inst c f have tl: "token_loop offline (Some ''FOO BAR BAZ'') ''FOO ( BAR'' None True [] 0
      = Some (None, False, [], match_total offline ''FOO BAR BAZ'' [''FOO'']
          + match_total offline ''FOO BAR BAZ'' [''BAR''])"
    by blast
  from inst c f k h1 h2 h3 h4
  have a: "autodetect offline malformed_list (Some ''FOO BAR BAZ'') = Some (int 1)"
    by blast
  from c m r f tl t s a show ?thesis
    by simp
qed

text \<open>
  C5. A registered plugin without \<open>regex\<close> is passed over by the loop, which goes to
  the next index with the winner and the best count unchanged: its score is 0, and
  the autodetection never selects it, for any identity string.
\<close>

theorem absent_pattern_never_selected:
  assumes "j < length (registered pl)" and "regex (registered pl ! j) = None"
  shows "autodetect_loop env pl ident j token token_found saved w mc m
       = autodetect_loop env pl ident (j + 1) token token_found saved w mc m
     \<and> plugin_score env s (registered pl ! j) = 0
     \<and> autodetect env pl (Some s) \<noteq> Some (int j)"
proof -
  have j: "j < PLUGIN_LIST_SIZE_MAX" and p: "pl j = Some (registered pl ! j)"
    using registered_from_nth [of j pl 0] assms(1) by (simp_all add: registered_def)
  have skip: "autodetect_loop env pl ident j token token_found saved w mc m
       = autodetect_loop env pl ident (j + 1) token token_found saved w mc m"
    by (rule autodetect_loop_skip [where pl = pl and i = j, OF j p assms(2)])
  have zero: "plugin_score env s (registered pl ! j) = 0"
    using assms(2) by (simp add: plugin_score_def)
  obtain w' m' where w': "autodetect env pl (Some s) = Some w'"
    and best: "best_upto (score_at env pl s) (length (registered pl)) w' m'"
    using autodetect_best by blast
  have "w' \<noteq> int j"
  proof
    assume "w' = int j"
    with best have "0 < score_at env pl s j"
      unfolding best_upto_def by (auto split: if_splits)
    then show False
      using zero score_at_registered [OF assms(1), of env s] by simp
  qed
  with w' skip zero show ?thesis by simp
qed

theorem absent_pattern_never_selected_witness:
  "3 < length (registered test_list)
   \<and> regex (registered test_list ! 3) = None
   \<and> plugin_score offline ''longname'' (registered test_list ! 3) = 0
   \<and> autodetect offline test_list (Some ''longname'') \<noteq> Some (int 3)"
proof -
  have n: "3 < length (registered test_list)"
    by code_simp
  have r: "regex (registered test_list ! 3) = None"
    by code_simp
  from absent_pattern_never_selected [OF n r, of offline] n r show ?thesis
    by blast
qed

section \<open>The two ways of choosing a plugin\<close>

text \<open>
  C6. In autodetect mode (an address and no plugin name), when the identity query has
  succeeded and no registered plugin scores more than 0 against the identity string,
  the loop ends with \<open>plugin_winner = -1\<close> and \<open>screenshot\<close> ends the process with
  \<open>EXIT_FAILURE\<close>, which is not 0, after the message that tells the user to give the
  plugin name. Nothing else happens after the query: no plugin is called.
\<close>

theorem autodetect_without_match_fails:
  assumes "strlen address \<noteq> 0" and "strlen plugin_name = 0"
    and "get_device_id env address id0 (if timeout \<noteq> 0 then 1 else 0) w
           = (Return (0, buf), w1)"
    and "c_str buf = Some ident"
    and "\<forall>j<length (registered pl). \<not> 0 < plugin_score env ident (registered pl ! j)"
  shows "autodetect env pl (c_str buf) = Some (- 1)
     \<and> screenshot env pl id0 address plugin_name filename timeout w
         = (Exit EXIT_FAILURE,
            printf (''Error: Could not autodetect which screenshot plugin to use - ''
                    @ ''please specify plugin name manually\<newline>'') w1)
     \<and> EXIT_FAILURE \<noteq> 0"
proof -
  obtain w' m where w': "autodetect env pl (Some ident) = Some w'"
    and best: "best_upto (score_at env pl ident) (length (registered pl)) w' m"
    using autodetect_best by blast
  have "w' = - 1"
  proof (rule ccontr)
    assume "w' \<noteq> - 1"
    with best have "nat w' < length (registered pl)" and "0 < score_at env pl ident (nat w')"
      unfolding best_upto_def by simp_all
    then show False
      using assms(5) score_at_registered [of "nat w'" pl env ident] by simp
  qed
  with w' have a: "autodetect env pl (c_str buf) = Some (- 1)"
    using assms(4) by simp
  have "screenshot env pl id0 address plugin_name filename timeout w
      = (Exit EXIT_FAILURE,
         printf (''Error: Could not autodetect which screenshot plugin to use - ''
                 @ ''please specify plugin name manually\<newline>'') w1)"
    unfolding screenshot_def using assms(1,2) by (simp add: assms(3) a)
  with a show ?thesis by (simp add: EXIT_FAILURE_def)
qed

theorem autodetect_without_match_fails_witness:
  "screenshot (instrument ''QUX\<newline>'') test_list (\<lambda>k. CHR 0x00) ''10.0.0.1'' [] [] 3000
       world_empty
     = (Exit EXIT_FAILURE,
        printf (''Error: Could not autodetect which screenshot plugin to use - ''
                @ ''please specify plugin name manually\<newline>'')
          (world_empty\<lparr>calls := id_query_calls ''10.0.0.1'' 3 1\<rparr>))
   \<and> map (plugin_score (instrument ''QUX\<newline>'') ''QUX'') (registered test_list) = [0, 0, 0, 0]"
proof -
  have q: "''QUX\<newline>'' = ''QUX'' @ [CHR ''\<newline>'']" by simp
  obtain buf where g: "get_device_id (instrument ''QUX\<newline>'') ''10.0.0.1'' (\<lambda>k. CHR 0x00)
        (if (3000::int) \<noteq> 0 then 1 else 0) world_empty
      = (Return (0, buf), world_empty\<lparr>calls := id_query_calls ''10.0.0.1'' 3 1\<rparr>)"
    and c: "c_str buf = Some ''QUX''"
    using instrument_query [of "''QUX''" "''10.0.0.1''" "\<lambda>k. CHR 0x00" 1]
    unfolding q by (auto simp: ID_LENGTH_MAX_def)
  have s: "map (plugin_score (instrument ''QUX\<newline>'') ''QUX'') (registered test_list)
      = [0, 0, 0, 0]"
    by code_simp
  have n: "length (registered test_list) = 4"
    by code_simp
  have z: "\<forall>j<length (registered test_list).
      \<not> 0 < plugin_score (instrument ''QUX\<newline>'') ''QUX'' (registered test_list ! j)"
  proof (intro allI impI)
    fix j assume "j < length (registered test_list)"
    then have "plugin_score (instrument ''QUX\<newline>'') ''QUX'' (registered test_list ! j)
        = [0, 0, 0, 0] ! j"
      using s by (metis nth_map)
    moreover have "j < 4" using \<open>j < length (registered test_list)\<close> n by simp
    ultimately show "\<not> 0 < plugin_score (instrument ''QUX\<newline>'') ''QUX''
        (registered test_list ! j)"
      by (auto simp: less_Suc_eq numeral_eq_Suc)
  qed
  have a: "strlen ''10.0.0.1'' \<noteq> 0" and e: "strlen [] = 0"
    by (simp_all add: strlen_def)
  from autodetect_without_match_fails [OF a e g c z] s show ?thesis
    by simp
qed

text \<open>
  C7. In explicit mode (an address and a plugin name), \<open>screenshot\<close> compares the
  name with \<open>strcmp\<close>, which is 0 for equal strings only, along the list: the plugin
  it calls is the first registered one with that very name, and it is called in the
  world in which \<open>screenshot\<close> was entered, so no transport call has been made before
  the plugin's own. When no registered plugin has the name, the process ends with
  \<open>EXIT_FAILURE\<close> after the message "Unknown plugin name", again with no transport
  call made.
\<close>

theorem explicit_name_lookup:
  assumes "strlen address \<noteq> 0" and "strlen plugin_name \<noteq> 0"
  shows "screenshot env pl id0 address plugin_name filename timeout w
     = (case find (\<lambda>p. name p = plugin_name) (registered pl) of
          None \<Rightarrow> (Exit EXIT_FAILURE, printf ''Error: Unknown plugin name\<newline>'' w)
        | Some p \<Rightarrow> screenshot_fn p address timeout w)"
proof (cases "find (\<lambda>p. name p = plugin_name) (registered pl)")
  case None
  then have "lookup_loop pl plugin_name 0 True = (length (registered pl), True)"
    using lookup_loop_find [of pl plugin_name 0] by (simp add: registered_def)
  then show ?thesis
    unfolding screenshot_def using assms None by simp
next
  case (Some p)
  define k where "k = length (takeWhile (\<lambda>p. name p \<noteq> plugin_name) (registered pl))"
  have l: "lookup_loop pl plugin_name 0 True = (k, False)"
    using lookup_loop_find [of pl plugin_name 0] Some by (simp add: registered_def k_def)
  have k: "k < length (registered pl)" and p: "registered pl ! k = p"
    using find_takeWhile [OF Some] by (simp_all add: k_def)
  have "k < PLUGIN_LIST_SIZE_MAX" and "pl k = Some p"
    using registered_from_nth [of k pl 0] k p by (simp_all add: registered_def)
  then have "call_plugin pl (int k) address timeout w = screenshot_fn p address timeout w"
    by (simp add: call_plugin_def)
  then show ?thesis
    unfolding screenshot_def using assms Some l by simp
qed

theorem explicit_name_lookup_witness:
  "screenshot offline test_list (\<lambda>k. CHR 0x00) ''10.0.0.1'' ''b'' [] 3000 world_empty
     = (Return 0, world_empty)
   \<and> screenshot offline test_list (\<lambda>k. CHR 0x00) ''10.0.0.1'' ''B'' [] 3000 world_empty
     = (Exit EXIT_FAILURE, printf ''Error: Unknown plugin name\<newline>'' world_empty)
   \<and> calls (snd (screenshot offline test_list (\<lambda>k. CHR 0x00) ''10.0.0.1'' ''B'' [] 3000
        world_empty)) = []"
proof -
  have a: "strlen ''10.0.0.1'' \<noteq> 0" and b: "strlen ''b'' \<noteq> 0" and c: "strlen ''B'' \<noteq> 0"
    by (simp_all add: strlen_def)
  have f: "map_option (\<lambda>p. screenshot_fn p ''10.0.0.1'' 3000 world_empty)
        (find (\<lambda>p. name p = ''b'') (registered test_list))
      = Some (Return 0, world_empty)"
    by code_simp
  have g: "find (\<lambda>p. name p = ''B'') (registered test_list) = None"
    by code_simp
  from f obtain p where p: "find (\<lambda>p. name p = ''b'') (registered test_list) = Some p"
    and h: "screenshot_fn p ''10.0.0.1'' 3000 world_empty = (Return 0, world_empty)"
    by auto
  from explicit_name_lookup [OF a b, of offline test_list "\<lambda>k. CHR 0x00" "[]" 3000 world_empty]
    explicit_name_lookup [OF a c, of offline test_list "\<lambda>k. CHR 0x00" "[]" 3000 world_empty]
    p h g
  show ?thesis
    by (simp add: printf_def world_empty_def)
qed

section \<open>The listing\<close>

text \<open>
  C9. For every list of plugins whose names are shorter than \<open>2^31\<close> characters (so
  that their lengths are the same as \<open>int\<close> and as \<open>size_t\<close>), the listing prints,
  with \<open>L\<close> the length of the longest registered name: \<open>L - 4\<close> spaces (none when
  \<open>L\<close> is below 4) and the header \<open>Name   Description\<close>, then one line for each
  plugin in the order of registration, made of the name after \<open>L\<close> minus its length
  spaces, three spaces and the description. The padded name is \<open>L\<close> characters wide on
  every line; the subtraction in \<open>size_t\<close> never wraps, and the counter never
  overflows.
\<close>

theorem listing_format:
  assumes "\<forall>p\<in>set (registered pl). length (name p) < 2 ^ 31"
  shows "screenshot_list_plugins pl w
     = (Return (),
        w\<lparr>stdout := stdout w
           @ replicate (longest_name (registered pl) - 4) CHR '' ''
           @ ''Name   Description\<newline>''
           @ concat (map (\<lambda>p. replicate (longest_name (registered pl) - length (name p))
                                  CHR '' ''
                                @ name p @ ''   '' @ description p @ ''\<newline>'')
                       (registered pl))\<rparr>)
     \<and> (\<forall>p\<in>set (registered pl).
           length (replicate (longest_name (registered pl) - length (name p)) CHR '' ''
                   @ name p) = longest_name (registered pl))"
proof -
  let ?L = "longest_name (registered pl)"
  have L: "?L < 2 ^ 31"
    using assms by (intro longest_name_less) simp_all
  then have small: "int ?L \<le> int INT_MAX"
    by (simp add: INT_MAX_def)
  have lm: "longest_loop pl 0 0 = int ?L"
    using longest_loop_max [of pl 0 0] assms by (simp add: registered_def)
  have le: "\<forall>p\<in>set (registered_from pl 0). int (length (name p)) \<le> int ?L"
    using longest_name_ge [of _ "registered pl"] by (simp add: registered_def)
  have nl: "nat (int ?L - 4) = ?L - 4"
    by arith
  have "?L - 4 \<le> INT_MAX"
    using L by (simp add: INT_MAX_def)
  then have pad: "pad_loop 0 (nat (int ?L - 4)) w
      = (Return (), w\<lparr>stdout := stdout w @ replicate (?L - 4) CHR '' ''\<rparr>)"
    unfolding nl using pad_loop_spaces [of "?L - 4" 0 "?L - 4" w] by simp
  have rows: "rows_loop pl 0 (int ?L) w'
      = (Return (), w'\<lparr>stdout := stdout w'
           @ concat (map (listing_row ?L) (registered pl))\<rparr>)" for w'
    using rows_loop_lines [OF small le, of w'] by (simp add: registered_def)
  have row: "listing_row ?L = (\<lambda>p. replicate (?L - length (name p)) CHR '' ''
      @ name p @ ''   '' @ description p @ ''\<newline>'')"
    by (rule ext) (simp add: listing_row_def)
  have "screenshot_list_plugins pl w
      = (Return (),
         w\<lparr>stdout := stdout w @ replicate (?L - 4) CHR '' '' @ ''Name   Description\<newline>''
            @ concat (map (listing_row ?L) (registered pl))\<rparr>)"
    unfolding screenshot_list_plugins_def lm Let_def pad
    by (simp add: rows printf_def)
  moreover have "\<forall>p\<in>set (registered pl).
      length (replicate (?L - length (name p)) CHR '' '' @ name p) = ?L"
    using longest_name_ge [of _ "registered pl"] by simp
  ultimately show ?thesis
    unfolding row by simp
qed

theorem listing_format_witness:
  "stdout (snd (screenshot_list_plugins test_list world_empty))
     = ''    Name   Description\<newline>''
     @ ''       a   first\<newline>''
     @ ''       b   second\<newline>''
     @ ''       c   third\<newline>''
     @ ''longname   fourth\<newline>''
   \<and> longest_name (registered test_list) = 8"
proof -
  have n: "map (\<lambda>p. (name p, description p)) (registered test_list)
      = [(''a'', ''first''), (''b'', ''second''), (''c'', ''third''), (''longname'', ''fourth'')]"
    by code_simp
  have s: "\<forall>p\<in>set (registered test_list). length (name p) < 2 ^ 31"
  proof
    fix p assume "p \<in> set (registered test_list)"
    then have "(name p, description p)
        \<in> set (map (\<lambda>p. (name p, description p)) (registered test_list))"
      by simp
    then show "length (name p) < 2 ^ 31"
      unfolding n by auto
  qed
  have l: "longest_name (registered test_list) = 8"
    by code_simp
  have r: "concat (map (\<lambda>p. replicate (8 - length (name p)) CHR '' ''
          @ name p @ ''   '' @ description p @ ''\<newline>'') (registered test_list))
      = ''       a   first\<newline>'' @ ''       b   second\<newline>'' @ ''       c   third\<newline>''
        @ ''longname   fourth\<newline>''"
    by code_simp
  have h: "replicate 4 CHR '' '' = ''    ''"
    by code_simp
  from listing_format [OF s, of world_empty] show ?thesis
    unfolding l r by (simp add: world_empty_def h)
qed

section \<open>The identity query\<close>

text \<open>
  C10. When the instrument is connected and \<open>lxi_receive\<close> reports no error, the
  check \<open>length < 0\<close> lets the call through and the newline is looked for at index
  \<open>length - 1\<close> of \<open>id\<close>. That index is inside the array, and inside the bytes
  received, exactly when at least one byte was received; for a reply of 0 bytes it is
  \<open>-1\<close>, before the start of the array.
\<close>

theorem strip_index_needs_a_byte:
  assumes "connect_result env (calls w @ [Lxi_connect address timeout]) = device"
    and "device \<noteq> LXI_ERROR"
    and "receive_result env (calls w @ id_query_calls address device timeout) = Some data"
  shows "fst (get_device_id env address ident timeout w)
       = (if in_id (int (length (take ID_LENGTH_MAX data)) - 1)
          then Return (0, strip_newline (store ident (take ID_LENGTH_MAX data))
                            (length (take ID_LENGTH_MAX data)))
          else Out_of_bounds (int (length (take ID_LENGTH_MAX data)) - 1))
     \<and> (in_id (int (length (take ID_LENGTH_MAX data)) - 1)
          \<longleftrightarrow> 1 \<le> length (take ID_LENGTH_MAX data))
     \<and> (length (take ID_LENGTH_MAX data) = 0
          \<longrightarrow> fst (get_device_id env address ident timeout w) = Out_of_bounds (- 1))"
proof -
  define d where "d = take ID_LENGTH_MAX data"
  have "length d \<le> ID_LENGTH_MAX"
    by (simp add: d_def)
  then have idx: "in_id (int (length d) - 1) \<longleftrightarrow> 1 \<le> length d"
    unfolding in_id_def by linarith
  have "fst (get_device_id env address ident timeout w)
      = (if d = [] then Out_of_bounds (- 1)
         else Return (0, strip_newline (store ident d) (length d)))"
    using get_device_id_received [OF assms, of ident] by (simp add: d_def)
  then have "fst (get_device_id env address ident timeout w)
       = (if in_id (int (length d) - 1)
          then Return (0, strip_newline (store ident d) (length d))
          else Out_of_bounds (int (length d) - 1))
     \<and> (in_id (int (length d) - 1) \<longleftrightarrow> 1 \<le> length d)
     \<and> (length d = 0 \<longrightarrow> fst (get_device_id env address ident timeout w)
           = Out_of_bounds (- 1))"
    unfolding idx by (cases d) simp_all
  then show ?thesis
    unfolding d_def .
qed

theorem strip_index_needs_a_byte_witness:
  "fst (get_device_id (instrument []) ''10.0.0.1'' (\<lambda>k. CHR 0x00) 1 world_empty)
     = Out_of_bounds (- 1)
   \<and> \<not> in_id (int (length (take ID_LENGTH_MAX [])) - 1)
   \<and> in_id (int (length (take ID_LENGTH_MAX ''A'')) - 1)
   \<and> fst (get_device_id (instrument ''A'') ''10.0.0.1'' (\<lambda>k. CHR 0x00) 1 world_empty)
     = Return (0, strip_newline (store (\<lambda>k. CHR 0x00) (take ID_LENGTH_MAX ''A''))
                    (length (take ID_LENGTH_MAX ''A'')))"
proof -
  have c: "connect_result (instrument r) (calls world_empty @ [Lxi_connect ''10.0.0.1'' 1]) = 3"
    for r by (simp add: instrument_def)
  have e: "(3::int) \<noteq> LXI_ERROR"
    by (simp add: LXI_ERROR_def)
  have r: "receive_result (instrument r) (calls world_empty @ id_query_calls ''10.0.0.1'' 3 1)
      = Some r" for r
    by (simp add: instrument_def id_query_calls_def)
  from strip_index_needs_a_byte [OF c e r, of "[]" "\<lambda>k. CHR 0x00"]
    strip_index_needs_a_byte [OF c e r, of "''A''" "\<lambda>k. CHR 0x00"]
  show ?thesis
    by (simp add: in_id_def ID_LENGTH_MAX_def)
qed


text \<open>
  C8 says that an identity that does not end in a newline is left as it is. For the
  empty reply (\<open>lxi_receive\<close> returns 0) the code does not leave it at that: it reads
  \<open>id[-1]\<close>. For the replies of one byte or more the newline is removed as stated
  (\<open>get_device_id_received\<close>, \<open>get_device_id_strips_newline\<close>).
\<close>

theorem empty_reply_reads_before_the_array:
  "fst (get_device_id (instrument []) ''10.0.0.1'' (\<lambda>k. CHR 0x00) 3000 world_empty)
     = Out_of_bounds (- 1)"
proof -
  have c: "connect_result (instrument []) (calls world_empty @ [Lxi_connect ''10.0.0.1'' 3000])
      = 3"
    by (simp add: instrument_def)
  have e: "(3::int) \<noteq> LXI_ERROR"
    by (simp add: LXI_ERROR_def)
  have r: "receive_result (instrument [])
      (calls world_empty @ id_query_calls ''10.0.0.1'' 3 3000) = Some []"
    by (simp add: instrument_def id_query_calls_def)
  show ?thesis
    using get_device_id_received [OF c e r, of "\<lambda>k. CHR 0x00"] by simp
qed

section \<open>The timeout\<close>

lemma get_device_id_calls:
  "calls (snd (get_device_id env address ident timeout w))
     = calls w @ (if connect_result env (calls w @ [Lxi_connect address timeout]) = LXI_ERROR
                  then [Lxi_connect address timeout]
                  else id_query_calls address
                         (connect_result env (calls w @ [Lxi_connect address timeout])) timeout)"
  by (simp add: get_device_id_def lxi_connect_def lxi_send_def lxi_receive_def
      id_query_calls_def strlen_def printf_def Let_def split: option.split)


lemma get_device_id_timeouts:
  "\<exists>cs. calls (snd (get_device_id env address ident timeout w)) = calls w @ cs
     \<and> (\<forall>c\<in>set cs. call_timeout c = Some timeout)"
  by (simp add: get_device_id_def lxi_connect_def lxi_send_def lxi_receive_def
      strlen_def printf_def Let_def split: option.split)

lemma siglent_sdm3000_screenshot_timeouts:
  "\<exists>cs. calls (snd (siglent_sdm3000_screenshot env address ident timeout w)) = calls w @ cs
     \<and> (\<forall>c\<in>set cs. call_timeout c = Some timeout \<or> call_timeout c = None)"
  by (simp add: siglent_sdm3000_screenshot_def lxi_connect_def lxi_send_def lxi_receive_def
      lxi_disconnect_def screenshot_file_dump_def error_printf_def
      strlen_def printf_def Let_def split: option.split)

text \<open>
  C3 says that every transport call gets the timeout the caller gave. \<open>screenshot\<close>
  calls \<open>get_device_id(address, id, timeout != 0)\<close>: the third argument is the
  result of the comparison, so the three calls of the identity query get 1 for every
  timeout other than 0. \<open>get_device_id\<close> passes on to every transport call the timeout
  it is handed (\<open>get_device_id_timeouts\<close>), so it is this one argument that is wrong.
  A run in autodetect mode with timeout 3000 on the bench, where the selected plugin
  makes no call of its own: the three calls of the query are made with timeout 1.
\<close>

theorem identity_query_gets_flag_not_timeout:
  "screenshot (instrument ''FOO BAR BAZ\<newline>'') test_list (\<lambda>k. CHR 0x00) ''10.0.0.1'' [] []
       3000 world_empty
     = (Return 0,
        world_empty\<lparr>calls := [Lxi_connect ''10.0.0.1'' 1, Lxi_send 3 ''*IDN?'' 5 1,
                               Lxi_receive 3 65536 1],
                     stdout := ''Loaded b screenshot plugin\<newline>''\<rparr>)"
proof -
  define R where "R = ''FOO BAR BAZ\<newline>''"
  define S where "S = ''FOO BAR BAZ''"
  define w1 where "w1 = world_empty\<lparr>calls := id_query_calls ''10.0.0.1'' 3 1\<rparr>"
  have q: "R = S @ [CHR ''\<newline>'']"
    by (simp add: R_def S_def)
  obtain buf where g: "get_device_id (instrument R) ''10.0.0.1'' (\<lambda>k. CHR 0x00) 1 world_empty
      = (Return (0, buf), w1)"
    and c: "c_str buf = Some S"
    using instrument_query [of S "''10.0.0.1''" "\<lambda>k. CHR 0x00" 1]
    unfolding q w1_def by (auto simp: ID_LENGTH_MAX_def S_def)
  have a: "autodetect (instrument R) test_list (Some S) = Some 1"
    unfolding R_def S_def by code_simp
  have p: "test_list (Suc 0) = Some \<lparr>name = ''b'', description = ''second'', regex = Some ''FOO BAR'',
      screenshot_fn = no_handler\<rparr>"
    by (simp add: test_list_def)
  have "screenshot (instrument R) test_list (\<lambda>k. CHR 0x00) ''10.0.0.1'' [] [] 3000 world_empty
      = (Return 0, printf ''Loaded b screenshot plugin\<newline>'' w1)"
    unfolding screenshot_def
    by (simp add: strlen_def g c a p call_plugin_def PLUGIN_LIST_SIZE_MAX_def no_handler_def)
  then show ?thesis
    unfolding R_def [symmetric]
    by (simp add: w1_def printf_def world_empty_def id_query_calls_def ID_LENGTH_MAX_def)
qed

end
